theory Spec2Isabelle
  imports Main "HOL-Library.Log_Nat" "HOL-Library.Word"
begin

section \<open>JavaScript numbers\<close>

text \<open>
  Every number of \<^verbatim>\<open>imageProcessor.ts\<close> is an IEEE 754 binary64 value. A finite
  binary64 value is a rational, so numbers are modelled as \<^typ>\<open>rat\<close> and each
  arithmetic operation is the exact operation followed by \<open>fl\<close>, rounding to the
  nearest value with a 53 bit significand, ties to the even significand. The exponent
  range is not bounded, so \<open>fl\<close> agrees with binary64 wherever the result is a normal
  number (between \<open>2 powi -1022\<close> and \<open>2 powi 1024\<close> in magnitude); infinities and NaN
  are outside the model.
\<close>

definition ilog2 :: "rat \<Rightarrow> int" where
  \<comment> \<open>for \<open>0 < x\<close>: the exponent \<open>e\<close> with \<open>2 powi e \<le> x < 2 powi (e + 1)\<close>\<close>
  "ilog2 x = (case quotient_of x of (p, q) \<Rightarrow>
     (let e = bitlen p - bitlen q in if 2 powi e \<le> x then e else e - 1))"

definition round_half_even :: "rat \<Rightarrow> int" where
  "round_half_even x =
     (let n = \<lfloor>x\<rfloor>; r = x - of_int n in
      if r < 1 / 2 then n else if 1 / 2 < r then n + 1 else if even n then n else n + 1)"

definition fl :: "rat \<Rightarrow> rat" where
  "fl x = (if x = 0 then 0 else
     (let u = 2 powi (ilog2 \<bar>x\<bar> - 52) in of_int (round_half_even (x / u)) * u))"

definition fadd :: "rat \<Rightarrow> rat \<Rightarrow> rat" where "fadd x y = fl (x + y)"
definition fsub :: "rat \<Rightarrow> rat \<Rightarrow> rat" where "fsub x y = fl (x - y)"
definition fmul :: "rat \<Rightarrow> rat \<Rightarrow> rat" where "fmul x y = fl (x * y)"
definition fdiv :: "rat \<Rightarrow> rat \<Rightarrow> rat" where "fdiv x y = fl (x / y)"

text \<open>The decimal literals of the source denote the nearest binary64 value.\<close>

definition lit_0_05 :: rat where "lit_0_05 = fl (5 / 100)"
definition lit_0_1 :: rat where "lit_0_1 = fl (1 / 10)"
definition lit_1_2 :: rat where "lit_1_2 = fl (12 / 10)"

text \<open>\<^verbatim>\<open>Math.round\<close>: the nearest integer, a tie going to the larger one.\<close>

definition Math_round :: "rat \<Rightarrow> int" where
  "Math_round x = \<lfloor>x + 1 / 2\<rfloor>"


section \<open>Browser objects\<close>

datatype TargetFormat = ImageJpeg | ImagePng | ImageWebp

text \<open>A \<^verbatim>\<open>Blob\<close> is its bytes; \<^verbatim>\<open>blob.size\<close> is their number.\<close>

type_synonym Blob = "8 word list"

definition blob_size :: "Blob \<Rightarrow> nat" where
  "blob_size b = length b"

text \<open>A decoded \<^verbatim>\<open>HTMLImageElement\<close>, and a canvas with its bitmap.\<close>

record 'p Image =
  width :: nat
  height :: nat
  pixels :: 'p

record 'p Canvas =
  cwidth :: nat
  cheight :: nat
  bitmap :: 'p

text \<open>
  What the code asks of the browser. \<open>readAsDataURL\<close> and \<open>decode\<close> are the two steps
  of \<^verbatim>\<open>loadImage\<close> that can fire \<^verbatim>\<open>onerror\<close> (\<open>None\<close>); \<open>getContext\<close> tells whether
  \<^verbatim>\<open>canvas.getContext('2d')\<close> is non-null; \<open>blank w h\<close> is the cleared bitmap a canvas gets
  when its width or height is assigned; \<open>paint bm img dw dh\<close> is the bitmap after
  \<^verbatim>\<open>ctx.drawImage(img, 0, 0, dw, dh)\<close> on bitmap \<open>bm\<close>; \<open>toBlob\<close> is the encoder, \<open>None\<close>
  when the callback of \<^verbatim>\<open>canvas.toBlob\<close> receives \<^verbatim>\<open>null\<close>.
\<close>

record ('f, 'p) Browser =
  readAsDataURL :: "'f \<Rightarrow> string option"
  decode :: "string \<Rightarrow> 'p Image option"
  getContext :: bool
  blank :: "nat \<Rightarrow> nat \<Rightarrow> 'p"
  paint :: "'p \<Rightarrow> 'p Image \<Rightarrow> nat \<Rightarrow> nat \<Rightarrow> 'p"
  toBlob :: "'p Canvas \<Rightarrow> TargetFormat \<Rightarrow> rat \<Rightarrow> Blob option"

text \<open>
  The rejections and exceptions of \<^verbatim>\<open>processImage\<close>: \<open>DecodeError\<close> is a rejected
  \<^verbatim>\<open>loadImage\<close>, \<open>ContextError\<close> is \<^verbatim>\<open>'Could not get canvas context.'\<close>, \<open>EncodeError\<close> is
  \<^verbatim>\<open>'Canvas to Blob conversion failed.'\<close> and \<open>UnreachableBudget t\<close> is
  \<^verbatim>\<open>'Could not resize image below ${targetSizeKB}KB. ...'\<close>.
\<close>

datatype error = DecodeError | ContextError | EncodeError | UnreachableBudget rat

text \<open>The calls made on the drawing surface and the encoder, in the order they happen.\<close>

datatype 'p call =
  DrawImage "'p Image" nat nat
  | ToBlob "'p Canvas" TargetFormat rat

record Result =
  blob :: Blob
  finalSizeKB :: rat


section \<open>The image processor\<close>

definition loadImage :: "('f, 'p) Browser \<Rightarrow> 'f \<Rightarrow> error + 'p Image" where
  "loadImage B file =
     (case readAsDataURL B file of
        None \<Rightarrow> Inl DecodeError
      | Some url \<Rightarrow> (case decode B url of None \<Rightarrow> Inl DecodeError | Some img \<Rightarrow> Inr img))"

definition getCanvasBlob ::
  "('f, 'p) Browser \<Rightarrow> 'p Canvas \<Rightarrow> TargetFormat \<Rightarrow> rat \<Rightarrow> 'p call list
     \<Rightarrow> (error + Blob) \<times> 'p call list" where
  "getCanvasBlob B canvas format quality cs =
     (case toBlob B canvas format quality of
        Some b \<Rightarrow> (Inr b, cs @ [ToBlob canvas format quality])
      | None \<Rightarrow> (Inl EncodeError, cs @ [ToBlob canvas format quality]))"

text \<open>
  \<^verbatim>\<open>document.createElement('canvas')\<close> is a blank 300 by 150 canvas. Assigning
  \<^verbatim>\<open>canvas.width\<close> or \<^verbatim>\<open>canvas.height\<close> clears the bitmap. The numbers assigned here
  are results of \<^verbatim>\<open>Math.round\<close> on non-negative values, or the image's own dimensions.
\<close>

definition createElement :: "('f, 'p) Browser \<Rightarrow> 'p Canvas" where
  "createElement B = \<lparr>cwidth = 300, cheight = 150, bitmap = blank B 300 150\<rparr>"

definition set_width :: "('f, 'p) Browser \<Rightarrow> 'p Canvas \<Rightarrow> nat \<Rightarrow> 'p Canvas" where
  "set_width B canvas w = canvas\<lparr>cwidth := w, bitmap := blank B w (cheight canvas)\<rparr>"

definition set_height :: "('f, 'p) Browser \<Rightarrow> 'p Canvas \<Rightarrow> nat \<Rightarrow> 'p Canvas" where
  "set_height B canvas h = canvas\<lparr>cheight := h, bitmap := blank B (cwidth canvas) h\<rparr>"

definition drawImage ::
  "('f, 'p) Browser \<Rightarrow> 'p Canvas \<Rightarrow> 'p Image \<Rightarrow> nat \<Rightarrow> nat \<Rightarrow> 'p Canvas" where
  "drawImage B canvas img dw dh = canvas\<lparr>bitmap := paint B (bitmap canvas) img dw dh\<rparr>"

text \<open>
  The \<^verbatim>\<open>while\<close> loop of the PNG branch. It is a partial function: \<open>None\<close> is a loop that
  does not return. The state is \<open>currentBlob\<close>, \<open>scale\<close> and the canvas.
\<close>

partial_function (option) shrink_loop ::
  "('f, 'p) Browser \<Rightarrow> 'p Image \<Rightarrow> rat \<Rightarrow> Blob \<Rightarrow> rat \<Rightarrow> 'p Canvas \<Rightarrow> 'p call list
     \<Rightarrow> ((error + Blob \<times> rat \<times> 'p Canvas) \<times> 'p call list) option" where
  "shrink_loop B img targetSizeBytes currentBlob scale canvas cs =
     (if targetSizeBytes < of_nat (blob_size currentBlob) \<and> lit_0_1 < scale then
        (let scale' = fsub scale lit_0_05;
             canvas1 = set_width B canvas (nat (Math_round (fmul (of_nat (width img)) scale')));
             canvas2 = set_height B canvas1 (nat (Math_round (fmul (of_nat (height img)) scale')));
             canvas3 = drawImage B canvas2 img (cwidth canvas2) (cheight canvas2);
             cs1 = cs @ [DrawImage img (cwidth canvas2) (cheight canvas2)]
         in case getCanvasBlob B canvas3 ImagePng 1 cs1 of
              (Inl e, cs2) \<Rightarrow> Some (Inl e, cs2)
            | (Inr b, cs2) \<Rightarrow> shrink_loop B img targetSizeBytes b scale' canvas3 cs2)
      else Some (Inr (currentBlob, scale, canvas), cs))"

text \<open>
  The body of the \<^verbatim>\<open>for\<close> loop of the JPEG and WebP branch, on the loop state
  \<open>(minQuality, maxQuality, bestBlob)\<close>, and the loop itself from loop counter \<open>i\<close>.
\<close>

definition quality_step ::
  "('f, 'p) Browser \<Rightarrow> 'p Canvas \<Rightarrow> TargetFormat \<Rightarrow> rat \<Rightarrow> rat \<times> rat \<times> Blob option
     \<Rightarrow> 'p call list \<Rightarrow> (error + rat \<times> rat \<times> Blob option) \<times> 'p call list" where
  "quality_step B canvas format targetSizeBytes st cs =
     (case st of (minQuality, maxQuality, bestBlob) \<Rightarrow>
        (let quality = fdiv (fadd minQuality maxQuality) 2
         in case getCanvasBlob B canvas format quality cs of
              (Inl e, cs1) \<Rightarrow> (Inl e, cs1)
            | (Inr currentBlob, cs1) \<Rightarrow>
                if of_nat (blob_size currentBlob) \<le> targetSizeBytes
                then (Inr (quality, maxQuality, Some currentBlob), cs1)
                else (Inr (minQuality, quality, bestBlob), cs1)))"

function quality_loop ::
  "('f, 'p) Browser \<Rightarrow> 'p Canvas \<Rightarrow> TargetFormat \<Rightarrow> rat \<Rightarrow> nat \<Rightarrow> rat \<times> rat \<times> Blob option
     \<Rightarrow> 'p call list \<Rightarrow> (error + rat \<times> rat \<times> Blob option) \<times> 'p call list" where
  "quality_loop B canvas format targetSizeBytes i st cs =
     (if i < 10 then
        (case quality_step B canvas format targetSizeBytes st cs of
           (Inl e, cs1) \<Rightarrow> (Inl e, cs1)
         | (Inr st', cs1) \<Rightarrow> quality_loop B canvas format targetSizeBytes (i + 1) st' cs1)
      else (Inr st, cs))"
  by pat_completeness auto
termination
  by (relation "measure (\<lambda>(B, canvas, format, t, i, rest). 10 - i)") auto

declare quality_loop.simps [simp del]

definition make_result :: "Blob \<Rightarrow> Result" where
  "make_result b = \<lparr>blob = b, finalSizeKB = fdiv (of_nat (blob_size b)) 1024\<rparr>"

text \<open>
  \<^verbatim>\<open>processImage(file, targetSizeKB, targetFormat)\<close>. The argument \<open>cs\<close> is the list of
  calls made before the invocation; the result comes with the list extended by the
  calls of this invocation.
\<close>

definition processImage ::
  "('f, 'p) Browser \<Rightarrow> 'f \<Rightarrow> rat \<Rightarrow> TargetFormat \<Rightarrow> 'p call list
     \<Rightarrow> ((error + Result) \<times> 'p call list) option" where
  "processImage B file targetSizeKB targetFormat cs =
     (let targetSizeBytes = fmul targetSizeKB 1024 in
      case loadImage B file of
        Inl e \<Rightarrow> Some (Inl e, cs)
      | Inr img \<Rightarrow>
          (let canvas0 = createElement B in
           if \<not> getContext B then Some (Inl ContextError, cs)
           else
             (let canvas1 = set_width B canvas0 (width img);
                  canvas2 = set_height B canvas1 (height img);
                  canvas = drawImage B canvas2 img (width img) (height img);
                  cs0 = cs @ [DrawImage img (width img) (height img)]
              in if targetFormat = ImagePng then
                   (case getCanvasBlob B canvas targetFormat 1 cs0 of
                      (Inl e, cs1) \<Rightarrow> Some (Inl e, cs1)
                    | (Inr currentBlob, cs1) \<Rightarrow>
                        (case shrink_loop B img targetSizeBytes currentBlob 1 canvas cs1 of
                           None \<Rightarrow> None
                         | Some (Inl e, cs2) \<Rightarrow> Some (Inl e, cs2)
                         | Some (Inr (lastBlob, scale, canvas'), cs2) \<Rightarrow>
                             Some (Inr (make_result lastBlob), cs2)))
                 else
                   (case quality_loop B canvas targetFormat targetSizeBytes 0 (0, 1, None) cs0 of
                      (Inl e, cs1) \<Rightarrow> Some (Inl e, cs1)
                    | (Inr (minQuality, maxQuality, bestBlob), cs1) \<Rightarrow>
                        (case bestBlob of
                           Some b \<Rightarrow> Some (Inr (make_result b), cs1)
                         | None \<Rightarrow>
                             (case getCanvasBlob B canvas targetFormat minQuality cs1 of
                                (Inl e, cs2) \<Rightarrow> Some (Inl e, cs2)
                              | (Inr fallbackBlob, cs2) \<Rightarrow>
                                  if fmul targetSizeBytes lit_1_2 < of_nat (blob_size fallbackBlob)
                                  then Some (Inl (UnreachableBudget targetSizeKB), cs2)
                                  else Some (Inr (make_result fallbackBlob), cs2)))))))"


section \<open>Auxiliary notions for the proofs\<close>

text \<open>
  After \<open>i\<close> iterations of the quality search the two bounds are neighbouring
  multiples of \<open>1 / 2 ^ i\<close>.
\<close>

definition dyadic :: "nat \<Rightarrow> rat \<Rightarrow> rat \<Rightarrow> bool" where
  "dyadic i lo hi \<longleftrightarrow> (\<exists>a::nat. a < 2 ^ i \<and> lo = of_nat a / 2 ^ i \<and> hi = (of_nat a + 1) / 2 ^ i)"

text \<open>
  \<open>iterations \<dots> k\<close> runs the body of the quality loop \<open>k\<close> times, stopping at the first
  error; \<open>rendered B img w h\<close> is a cleared \<open>w\<close> by \<open>h\<close> canvas on which \<open>img\<close> was drawn
  at that size.
\<close>

fun iterations ::
  "('f, 'p) Browser \<Rightarrow> 'p Canvas \<Rightarrow> TargetFormat \<Rightarrow> rat \<Rightarrow> nat \<Rightarrow> rat \<times> rat \<times> Blob option
     \<Rightarrow> 'p call list \<Rightarrow> (error + rat \<times> rat \<times> Blob option) \<times> 'p call list" where
  "iterations B canvas format t 0 st cs = (Inr st, cs)"
| "iterations B canvas format t (Suc k) st cs =
     (case iterations B canvas format t k st cs of
        (Inl e, cs1) \<Rightarrow> (Inl e, cs1)
      | (Inr st', cs1) \<Rightarrow> quality_step B canvas format t st' cs1)"

definition rendered :: "('f, 'p) Browser \<Rightarrow> 'p Image \<Rightarrow> nat \<Rightarrow> nat \<Rightarrow> 'p Canvas" where
  "rendered B img w h = \<lparr>cwidth = w, cheight = h, bitmap = paint B (blank B w h) img w h\<rparr>"

text \<open>What holds after \<open>k\<close> iterations of the loop body from the initial state.\<close>

definition search_post ::
  "('f, 'p) Browser \<Rightarrow> 'p Canvas \<Rightarrow> TargetFormat \<Rightarrow> rat \<Rightarrow> nat
     \<Rightarrow> (error + rat \<times> rat \<times> Blob option) \<Rightarrow> rat list \<Rightarrow> bool" where
  "search_post B c f t k r qs \<longleftrightarrow>
     length qs \<le> k \<and> (\<forall>q\<in>set qs. 0 < q \<and> q < 1) \<and>
     (case r of
        Inl e \<Rightarrow> e = EncodeError \<and> (\<exists>q\<in>set qs. toBlob B c f q = None)
      | Inr (lo, hi, best) \<Rightarrow>
          length qs = k \<and> dyadic k lo hi \<and>
          (case best of
             Some b \<Rightarrow> of_nat (blob_size b) \<le> t \<and> (\<exists>q\<in>set qs. toBlob B c f q = Some b)
           | None \<Rightarrow> lo = 0 \<and> (\<forall>q\<in>set qs. \<forall>b. toBlob B c f q = Some b \<longrightarrow> t < of_nat (blob_size b))))"

text \<open>
  The canvas \<^verbatim>\<open>processImage\<close> prepares before either search: the image drawn at its own
  size. \<open>quality_search\<close> is the quality loop as \<^verbatim>\<open>processImage\<close> starts it.
\<close>

definition intrinsic_canvas :: "('f, 'p) Browser \<Rightarrow> 'p Image \<Rightarrow> 'p Canvas" where
  "intrinsic_canvas B img = rendered B img (width img) (height img)"

definition quality_search ::
  "('f, 'p) Browser \<Rightarrow> 'p Image \<Rightarrow> rat \<Rightarrow> TargetFormat \<Rightarrow> 'p call list
     \<Rightarrow> (error + rat \<times> rat \<times> Blob option) \<times> 'p call list" where
  "quality_search B img t fmt cs =
     quality_loop B (intrinsic_canvas B img) fmt (fmul t 1024) 0 (0, 1, None)
       (cs @ [DrawImage img (width img) (height img)])"

text \<open>
  An encoder call fits the budget when it yields a blob of at most that many bytes;
  \<open>encode_calls\<close> counts the encoder calls in a list of calls.
\<close>

definition attempt_fits :: "('f, 'p) Browser \<Rightarrow> rat \<Rightarrow> 'p call \<Rightarrow> bool" where
  "attempt_fits B budget x =
     (case x of
        DrawImage img w h \<Rightarrow> False
      | ToBlob c f q \<Rightarrow>
          (case toBlob B c f q of None \<Rightarrow> False | Some b \<Rightarrow> of_nat (blob_size b) \<le> budget))"

definition encode_calls :: "'p call list \<Rightarrow> nat" where
  "encode_calls cs = length (filter (\<lambda>x. case x of ToBlob c f q \<Rightarrow> True | DrawImage img w h \<Rightarrow> False) cs)"

text \<open>
  The binary search as the specification words it, in exact rational arithmetic, for an
  encoder given as a function \<open>enc\<close> from the quality to the blob: one iteration, the
  state after \<open>k\<close> iterations, and the quality tried in iteration \<open>k\<close> (counted from 0).
  \<open>encoder B c f\<close> is such a function for the browser's encoder on canvas \<open>c\<close>; it is
  only used at qualities where the encoder call succeeded.
\<close>

definition spec_step ::
  "(rat \<Rightarrow> Blob) \<Rightarrow> rat \<Rightarrow> rat \<times> rat \<times> Blob option \<Rightarrow> rat \<times> rat \<times> Blob option" where
  "spec_step enc budget st =
     (case st of (minQuality, maxQuality, best) \<Rightarrow>
        (let quality = (minQuality + maxQuality) / 2; b = enc quality
         in if of_nat (blob_size b) \<le> budget then (quality, maxQuality, Some b)
            else (minQuality, quality, best)))"

definition spec_state :: "(rat \<Rightarrow> Blob) \<Rightarrow> rat \<Rightarrow> nat \<Rightarrow> rat \<times> rat \<times> Blob option" where
  "spec_state enc budget k = (spec_step enc budget ^^ k) (0, 1, None)"

definition spec_quality :: "(rat \<Rightarrow> Blob) \<Rightarrow> rat \<Rightarrow> nat \<Rightarrow> rat" where
  "spec_quality enc budget k = (case spec_state enc budget k of (lo, hi, best) \<Rightarrow> (lo + hi) / 2)"

definition encoder :: "('f, 'p) Browser \<Rightarrow> 'p Canvas \<Rightarrow> TargetFormat \<Rightarrow> rat \<Rightarrow> Blob" where
  "encoder B c f q = the (toBlob B c f q)"

text \<open>
  The PNG search by index: \<open>scale_after k\<close> is \<open>scale\<close> after \<open>k\<close> executions of
  \<^verbatim>\<open>scale -= 0.05\<close>, \<open>shrunk_canvas B img k\<close> the canvas drawn in the \<open>k\<close>-th iteration,
  \<open>shrink_calls B img k n\<close> the calls of iterations \<open>k + 1\<close> to \<open>n\<close>, and \<open>shrink_from\<close> the
  loop with at most \<open>d\<close> more iterations, returning the last blob and the number of the
  iteration that produced it.
\<close>

fun scale_after :: "nat \<Rightarrow> rat" where
  "scale_after 0 = 1"
| "scale_after (Suc k) = fsub (scale_after k) lit_0_05"

definition scaled_dim :: "nat \<Rightarrow> rat \<Rightarrow> nat" where
  "scaled_dim n scale = nat (Math_round (fmul (of_nat n) scale))"

definition shrunk_canvas :: "('f, 'p) Browser \<Rightarrow> 'p Image \<Rightarrow> nat \<Rightarrow> 'p Canvas" where
  "shrunk_canvas B img k =
     (if k = 0 then intrinsic_canvas B img
      else rendered B img (scaled_dim (width img) (scale_after k))
             (scaled_dim (height img) (scale_after k)))"

definition shrink_calls :: "('f, 'p) Browser \<Rightarrow> 'p Image \<Rightarrow> nat \<Rightarrow> nat \<Rightarrow> 'p call list" where
  "shrink_calls B img k n =
     concat (map (\<lambda>j. [DrawImage img (cwidth (shrunk_canvas B img j)) (cheight (shrunk_canvas B img j)),
                         ToBlob (shrunk_canvas B img j) ImagePng 1]) [Suc k..<Suc n])"

fun shrink_from ::
  "('f, 'p) Browser \<Rightarrow> 'p Image \<Rightarrow> rat \<Rightarrow> nat \<Rightarrow> nat \<Rightarrow> Blob \<Rightarrow> (error + Blob) \<times> nat" where
  "shrink_from B img t 0 k b = (Inr b, k)"
| "shrink_from B img t (Suc d) k b =
     (if t < of_nat (blob_size b) then
        (case toBlob B (shrunk_canvas B img (Suc k)) ImagePng 1 of
           None \<Rightarrow> (Inl EncodeError, Suc k)
         | Some b' \<Rightarrow> shrink_from B img t d (Suc k) b')
      else (Inr b, k))"

text \<open>
  A browser for examples. Its image is 15 by 100 pixels and loads from the file
  \<open>''photo''\<close> only; its encoder never fails and yields \<open>sz w h q\<close> zero bytes for a
  \<open>w\<close> by \<open>h\<close> canvas at quality \<open>q\<close>.
\<close>

definition demo_image :: "nat Image" where
  "demo_image = \<lparr>width = 15, height = 100, pixels = 7\<rparr>"

definition demo_browser :: "(nat \<Rightarrow> nat \<Rightarrow> rat \<Rightarrow> nat) \<Rightarrow> (string, nat) Browser" where
  "demo_browser sz =
     \<lparr>readAsDataURL = (\<lambda>file. Some file),
      decode = (\<lambda>url. if url = ''photo'' then Some demo_image else None),
      getContext = True,
      blank = (\<lambda>w h. 0),
      paint = (\<lambda>bm img dw dh. bm + pixels img),
      toBlob = (\<lambda>c f q. Some (replicate (sz (cwidth c) (cheight c) q) 0))\<rparr>"

definition flat_size :: "nat \<Rightarrow> nat \<Rightarrow> nat \<Rightarrow> rat \<Rightarrow> nat" where
  "flat_size n w h q = n"

definition demo_canvas :: "nat Canvas" where
  "demo_canvas = \<lparr>cwidth = 15, cheight = 100, bitmap = 7\<rparr>"

text \<open>An encoder whose output grows with the quality: 400 bytes per 1/1024 of quality.\<close>

definition linear_size :: "nat \<Rightarrow> nat \<Rightarrow> rat \<Rightarrow> nat" where
  "linear_size w h q = nat \<lfloor>q * 409600\<rfloor>"

text \<open>An encoder whose output is 85 bytes per pixel of the canvas.\<close>

definition area_size :: "nat \<Rightarrow> nat \<Rightarrow> rat \<Rightarrow> nat" where
  "area_size w h q = w * h * 85"

text \<open>
  The scales and dimensions of the PNG search read in exact decimal arithmetic:
  \<open>1 - 0.05 k\<close> as long as it is at least \<open>0.1\<close>, and the pairs of rounded
  dimensions these scales give.
\<close>

definition spec_scale :: "nat \<Rightarrow> rat" where
  "spec_scale k = 1 - of_nat k * (5 / 100)"

definition spec_dims :: "nat \<Rightarrow> nat \<Rightarrow> (nat \<times> nat) list" where
  "spec_dims w h =
     map (\<lambda>k. (nat (Math_round (of_nat w * spec_scale k)), nat (Math_round (of_nat h * spec_scale k))))
       (filter (\<lambda>k. 1 / 10 \<le> spec_scale k) [0..<21])"


section \<open>A browser with a state of its own\<close>

text \<open>
  For the claim about two runs the browser gets a state \<open>'w\<close> that each of its
  operations may read and change (a cache, the tables of an encoder, a clock).
  \<open>answers W w\<close> is how the operations answer in state \<open>w\<close>, and \<open>advance W op w\<close> is
  the state after the operation \<open>op\<close> was performed in state \<open>w\<close>. The operations are
  the ones \<^verbatim>\<open>processImage\<close> performs: \<^verbatim>\<open>reader.readAsDataURL(file)\<close>, the assignment of
  \<^verbatim>\<open>img.src\<close>, \<^verbatim>\<open>document.createElement('canvas')\<close>, \<^verbatim>\<open>canvas.getContext('2d')\<close>, the
  assignments of \<^verbatim>\<open>canvas.width\<close> and \<^verbatim>\<open>canvas.height\<close>, \<^verbatim>\<open>ctx.drawImage\<close> and
  \<^verbatim>\<open>canvas.toBlob\<close>.
\<close>

datatype ('f, 'p) operation =
  ReadFile 'f
  | DecodeUrl string
  | CreateCanvas
  | GetContext
  | SetWidth nat
  | SetHeight nat
  | Draw "'p Image" nat nat
  | Encode "'p Canvas" TargetFormat rat

record ('f, 'p, 'w) Stateful_Browser =
  answers :: "'w \<Rightarrow> ('f, 'p) Browser"
  advance :: "('f, 'p) operation \<Rightarrow> 'w \<Rightarrow> 'w"

text \<open>
  \<^verbatim>\<open>loadImage\<close>, \<^verbatim>\<open>getCanvasBlob\<close>, each loop and \<^verbatim>\<open>processImage\<close> once more,
  statement by statement, with the state of the browser passed from each of its
  operations to the next in the order of the source. The result comes with the state
  the browser is left in.
\<close>

definition loadImage_w ::
  "('f, 'p, 'w) Stateful_Browser \<Rightarrow> 'f \<Rightarrow> 'w \<Rightarrow> (error + 'p Image) \<times> 'w" where
  "loadImage_w W file w =
     (let w1 = advance W (ReadFile file) w in
      case readAsDataURL (answers W w) file of
        None \<Rightarrow> (Inl DecodeError, w1)
      | Some url \<Rightarrow>
          (let w2 = advance W (DecodeUrl url) w1 in
           case decode (answers W w1) url of
             None \<Rightarrow> (Inl DecodeError, w2)
           | Some img \<Rightarrow> (Inr img, w2)))"

definition getCanvasBlob_w ::
  "('f, 'p, 'w) Stateful_Browser \<Rightarrow> 'p Canvas \<Rightarrow> TargetFormat \<Rightarrow> rat \<Rightarrow> 'w
     \<Rightarrow> (error + Blob) \<times> 'w" where
  "getCanvasBlob_w W canvas format quality w =
     (let w1 = advance W (Encode canvas format quality) w in
      case toBlob (answers W w) canvas format quality of
        Some b \<Rightarrow> (Inr b, w1)
      | None \<Rightarrow> (Inl EncodeError, w1))"

partial_function (option) shrink_loop_w ::
  "('f, 'p, 'w) Stateful_Browser \<Rightarrow> 'p Image \<Rightarrow> rat \<Rightarrow> Blob \<Rightarrow> rat \<Rightarrow> 'p Canvas \<Rightarrow> 'w
     \<Rightarrow> ((error + Blob \<times> rat \<times> 'p Canvas) \<times> 'w) option" where
  "shrink_loop_w W img targetSizeBytes currentBlob scale canvas w =
     (if targetSizeBytes < of_nat (blob_size currentBlob) \<and> lit_0_1 < scale then
        (let scale' = fsub scale lit_0_05;
             new_width = nat (Math_round (fmul (of_nat (width img)) scale'));
             canvas1 = set_width (answers W w) canvas new_width;
             w1 = advance W (SetWidth new_width) w;
             new_height = nat (Math_round (fmul (of_nat (height img)) scale'));
             canvas2 = set_height (answers W w1) canvas1 new_height;
             w2 = advance W (SetHeight new_height) w1;
             canvas3 = drawImage (answers W w2) canvas2 img (cwidth canvas2) (cheight canvas2);
             w3 = advance W (Draw img (cwidth canvas2) (cheight canvas2)) w2
         in case getCanvasBlob_w W canvas3 ImagePng 1 w3 of
              (Inl e, w4) \<Rightarrow> Some (Inl e, w4)
            | (Inr b, w4) \<Rightarrow> shrink_loop_w W img targetSizeBytes b scale' canvas3 w4)
      else Some (Inr (currentBlob, scale, canvas), w))"

definition quality_step_w ::
  "('f, 'p, 'w) Stateful_Browser \<Rightarrow> 'p Canvas \<Rightarrow> TargetFormat \<Rightarrow> rat \<Rightarrow> rat \<times> rat \<times> Blob option
     \<Rightarrow> 'w \<Rightarrow> (error + rat \<times> rat \<times> Blob option) \<times> 'w" where
  "quality_step_w W canvas format targetSizeBytes st w =
     (case st of (minQuality, maxQuality, bestBlob) \<Rightarrow>
        (let quality = fdiv (fadd minQuality maxQuality) 2
         in case getCanvasBlob_w W canvas format quality w of
              (Inl e, w1) \<Rightarrow> (Inl e, w1)
            | (Inr currentBlob, w1) \<Rightarrow>
                if of_nat (blob_size currentBlob) \<le> targetSizeBytes
                then (Inr (quality, maxQuality, Some currentBlob), w1)
                else (Inr (minQuality, quality, bestBlob), w1)))"

function quality_loop_w ::
  "('f, 'p, 'w) Stateful_Browser \<Rightarrow> 'p Canvas \<Rightarrow> TargetFormat \<Rightarrow> rat \<Rightarrow> nat
     \<Rightarrow> rat \<times> rat \<times> Blob option \<Rightarrow> 'w \<Rightarrow> (error + rat \<times> rat \<times> Blob option) \<times> 'w" where
  "quality_loop_w W canvas format targetSizeBytes i st w =
     (if i < 10 then
        (case quality_step_w W canvas format targetSizeBytes st w of
           (Inl e, w1) \<Rightarrow> (Inl e, w1)
         | (Inr st', w1) \<Rightarrow> quality_loop_w W canvas format targetSizeBytes (i + 1) st' w1)
      else (Inr st, w))"
  by pat_completeness auto
termination
  by (relation "measure (\<lambda>(W, canvas, format, t, i, rest). 10 - i)") auto

declare quality_loop_w.simps [simp del]

definition processImage_w ::
  "('f, 'p, 'w) Stateful_Browser \<Rightarrow> 'f \<Rightarrow> rat \<Rightarrow> TargetFormat \<Rightarrow> 'w
     \<Rightarrow> ((error + Result) \<times> 'w) option" where
  "processImage_w W file targetSizeKB targetFormat w =
     (let targetSizeBytes = fmul targetSizeKB 1024 in
      case loadImage_w W file w of
        (Inl e, w1) \<Rightarrow> Some (Inl e, w1)
      | (Inr img, w1) \<Rightarrow>
          (let canvas0 = createElement (answers W w1);
               w2 = advance W CreateCanvas w1;
               ctx = getContext (answers W w2);
               w3 = advance W GetContext w2
           in if \<not> ctx then Some (Inl ContextError, w3)
           else
             (let canvas1 = set_width (answers W w3) canvas0 (width img);
                  w4 = advance W (SetWidth (width img)) w3;
                  canvas2 = set_height (answers W w4) canvas1 (height img);
                  w5 = advance W (SetHeight (height img)) w4;
                  canvas = drawImage (answers W w5) canvas2 img (width img) (height img);
                  w6 = advance W (Draw img (width img) (height img)) w5
              in if targetFormat = ImagePng then
                   (case getCanvasBlob_w W canvas targetFormat 1 w6 of
                      (Inl e, w7) \<Rightarrow> Some (Inl e, w7)
                    | (Inr currentBlob, w7) \<Rightarrow>
                        (case shrink_loop_w W img targetSizeBytes currentBlob 1 canvas w7 of
                           None \<Rightarrow> None
                         | Some (Inl e, w8) \<Rightarrow> Some (Inl e, w8)
                         | Some (Inr (lastBlob, scale, canvas'), w8) \<Rightarrow>
                             Some (Inr (make_result lastBlob), w8)))
                 else
                   (case quality_loop_w W canvas targetFormat targetSizeBytes 0 (0, 1, None) w6 of
                      (Inl e, w7) \<Rightarrow> Some (Inl e, w7)
                    | (Inr (minQuality, maxQuality, bestBlob), w7) \<Rightarrow>
                        (case bestBlob of
                           Some b \<Rightarrow> Some (Inr (make_result b), w7)
                         | None \<Rightarrow>
                             (case getCanvasBlob_w W canvas targetFormat minQuality w7 of
                                (Inl e, w8) \<Rightarrow> Some (Inl e, w8)
                              | (Inr fallbackBlob, w8) \<Rightarrow>
                                  if fmul targetSizeBytes lit_1_2 < of_nat (blob_size fallbackBlob)
                                  then Some (Inl (UnreachableBudget targetSizeKB), w8)
                                  else Some (Inr (make_result fallbackBlob), w8)))))))"

text \<open>
  A backend is pure when its answers do not depend on its state. The example keeps
  the number of operations performed so far as its state and answers in state \<open>w\<close> as
  \<open>demo_browser (sz w)\<close>: it is pure for a constant \<open>sz\<close>, and with \<open>flat_size\<close> for \<open>sz\<close> its
  encoder yields as many bytes as operations were performed before the call.
\<close>

definition pure_backend :: "('f, 'p, 'w) Stateful_Browser \<Rightarrow> bool" where
  "pure_backend W \<longleftrightarrow> (\<forall>w w'. answers W w = answers W w')"

definition demo_stateful ::
  "(nat \<Rightarrow> nat \<Rightarrow> nat \<Rightarrow> rat \<Rightarrow> nat) \<Rightarrow> (string, nat, nat) Stateful_Browser" where
  "demo_stateful sz = \<lparr>answers = (\<lambda>w. demo_browser (sz w)), advance = (\<lambda>op w. Suc w)\<rparr>"


section \<open>Rounding: exponents, scaling and exact values\<close>

lemma bitlen_powi:
  assumes "0 < (p::int)"
  shows "(2::rat) powi (bitlen p - 1) \<le> of_int p" and "of_int p < (2::rat) powi (bitlen p)"
proof -
  from assms have b: "1 \<le> bitlen p" by (auto simp: bitlen_alt_def)
  from bitlen_bounds[OF assms] have l: "2 ^ nat (bitlen p - 1) \<le> p" and u: "p < 2 ^ nat (bitlen p)"
    by auto
  from l have "(of_int (2 ^ nat (bitlen p - 1)) :: rat) \<le> of_int p"
    by (simp only: of_int_le_iff)
  then show "(2::rat) powi (bitlen p - 1) \<le> of_int p"
    using b by (simp add: power_int_def)
  from u have "(of_int p :: rat) < of_int (2 ^ nat (bitlen p))"
    by (simp only: of_int_less_iff)
  then show "of_int p < (2::rat) powi (bitlen p)"
    using b by (simp add: power_int_def)
qed

lemma ilog2_bounds:
  assumes "0 < x"
  shows "2 powi (ilog2 x) \<le> x \<and> x < 2 powi (ilog2 x + 1)"
proof -
  obtain p q where pq: "quotient_of x = (p, q)" by (cases "quotient_of x")
  then have q: "0 < q" and x: "x = of_int p / of_int q"
    by (auto simp: quotient_of_denom_pos quotient_of_div)
  from assms x q have p: "0 < p" by (simp add: zero_less_divide_iff)
  let ?e = "bitlen p - bitlen q"
  have qr: "(0::rat) < of_int q" using q by simp
  have up: "x < 2 powi (?e + 1)"
  proof -
    have "x * of_int q = of_int p" using x q by simp
    also have "\<dots> < 2 powi (bitlen p)" by (rule bitlen_powi(2)[OF p])
    also have "\<dots> = 2 powi (?e + 1) * (2::rat) powi (bitlen q - 1)"
      by (simp flip: power_int_add)
    also have "\<dots> \<le> 2 powi (?e + 1) * of_int q"
      using bitlen_powi(1)[OF q] by (intro mult_left_mono) auto
    finally show ?thesis using qr by simp
  qed
  have lo: "2 powi (?e - 1) \<le> x"
  proof -
    have "2 powi (?e - 1) * of_int q \<le> 2 powi (?e - 1) * (2::rat) powi (bitlen q)"
      using bitlen_powi(2)[OF q] by (intro mult_left_mono) auto
    also have "\<dots> = 2 powi (bitlen p - 1)"
      by (simp flip: power_int_add)
    also have "\<dots> \<le> of_int p" by (rule bitlen_powi(1)[OF p])
    also have "\<dots> = x * of_int q" using x q by simp
    finally show ?thesis using qr by simp
  qed
  show ?thesis
  proof (cases "2 powi ?e \<le> x")
    case True
    then have "ilog2 x = ?e" by (simp add: ilog2_def pq)
    with True up show ?thesis by simp
  next
    case False
    then have "ilog2 x = ?e - 1" by (simp add: ilog2_def pq)
    with False lo show ?thesis by simp
  qed
qed


lemma ilog2_unique:
  assumes "0 < x" "2 powi e \<le> x" "x < 2 powi (e + 1)"
  shows "ilog2 x = e"
proof -
  from ilog2_bounds[OF assms(1)] have b: "2 powi (ilog2 x) \<le> x" "x < 2 powi (ilog2 x + 1)"
    by auto
  have 1: "e < ilog2 x + 1"
  proof (rule ccontr)
    assume "\<not> e < ilog2 x + 1"
    then have "(2::rat) powi (ilog2 x + 1) \<le> 2 powi e"
      by (intro power_int_increasing) auto
    with assms(2) b(2) show False by simp
  qed
  have 2: "ilog2 x < e + 1"
  proof (rule ccontr)
    assume "\<not> ilog2 x < e + 1"
    then have "(2::rat) powi (e + 1) \<le> 2 powi (ilog2 x)"
      by (intro power_int_increasing) auto
    with assms(3) b(1) show False by simp
  qed
  from 1 2 show ?thesis by simp
qed

lemma round_half_even_of_int [simp]: "round_half_even (of_int n) = n"
  by (simp add: round_half_even_def)

lemma ilog2_scale:
  assumes "0 < x"
  shows "ilog2 (x * 2 powi k) = ilog2 x + k"
proof (rule ilog2_unique)
  from assms show "0 < x * 2 powi k" by simp
  from ilog2_bounds[OF assms] have b: "2 powi (ilog2 x) \<le> x" "x < 2 powi (ilog2 x + 1)"
    by auto
  have "2 powi (ilog2 x + k) = 2 powi (ilog2 x) * (2::rat) powi k"
    by (simp add: power_int_add)
  also have "\<dots> \<le> x * 2 powi k" using b(1) by (intro mult_right_mono) auto
  finally show "2 powi (ilog2 x + k) \<le> x * 2 powi k" .
  have "x * 2 powi k < 2 powi (ilog2 x + 1) * (2::rat) powi k"
    using b(2) by (intro mult_strict_right_mono) auto
  also have "\<dots> = 2 powi (ilog2 x + k + 1)"
    by (simp flip: power_int_add add: ac_simps)
  finally show "x * 2 powi k < 2 powi (ilog2 x + k + 1)" .
qed

lemma fl_scale: "fl (x * 2 powi k) = fl x * 2 powi k"
proof (cases "x = 0")
  case True
  then show ?thesis by (simp add: fl_def)
next
  case False
  then have pos: "0 < \<bar>x\<bar>" by simp
  have abs: "\<bar>x * 2 powi k\<bar> = \<bar>x\<bar> * 2 powi k" by (simp add: abs_mult)
  have "(2::rat) powi ((ilog2 \<bar>x\<bar> - 52) + k) = 2 powi (ilog2 \<bar>x\<bar> - 52) * 2 powi k"
    by (rule power_int_add) simp
  moreover have "ilog2 \<bar>x\<bar> + k - 52 = (ilog2 \<bar>x\<bar> - 52) + k" by simp
  ultimately have u: "(2::rat) powi (ilog2 \<bar>x\<bar> + k - 52) = 2 powi (ilog2 \<bar>x\<bar> - 52) * 2 powi k"
    by (simp only:)
  show ?thesis
    using False by (simp add: fl_def abs ilog2_scale[OF pos] u Let_def)
qed

lemma fl_exactI:
  assumes "x / 2 powi (ilog2 \<bar>x\<bar> - 52) = of_int j"
  shows "fl x = x"
proof (cases "x = 0")
  case True
  then show ?thesis by (simp add: fl_def)
next
  case False
  have "of_int j * (2::rat) powi (ilog2 \<bar>x\<bar> - 52) = x"
    using assms by (simp add: field_simps)
  with False show ?thesis by (simp add: fl_def Let_def assms)
qed

lemma fl_of_int:
  assumes "\<bar>m\<bar> \<le> 2 ^ 53"
  shows "fl (of_int m) = of_int m"
proof (cases "m = 0")
  case True
  then show ?thesis by (simp add: fl_def)
next
  case False
  let ?x = "of_int m :: rat"
  let ?e = "ilog2 \<bar>?x\<bar>"
  from False have pos: "0 < \<bar>?x\<bar>" by simp
  from ilog2_bounds[OF pos] have b: "2 powi ?e \<le> \<bar>?x\<bar>" by simp
  have "\<bar>?x\<bar> \<le> 2 powi 53"
  proof -
    have "\<bar>?x\<bar> = of_int \<bar>m\<bar>" by simp
    also have "\<dots> \<le> of_int (2 ^ 53)" using assms by (simp only: of_int_le_iff)
    finally show ?thesis by simp
  qed
  with b have "(2::rat) powi ?e \<le> 2 powi 53" by simp
  then have e53: "?e \<le> 53" by (rule power_int_le_imp_le_exp[rotated]) simp_all
  show ?thesis
  proof (cases "?e \<le> 52")
    case True
    have "?x / 2 powi (?e - 52) = ?x * 2 powi (52 - ?e)"
      by (simp add: power_int_diff)
    also have "\<dots> = of_int (m * 2 ^ nat (52 - ?e))"
      using True by (simp add: power_int_def)
    finally show ?thesis by (rule fl_exactI)
  next
    case e: False
    with e53 have e: "?e = 53" by simp
    with b assms have "\<bar>m\<bar> = 2 ^ 53"
    proof -
      have "(of_int (2 ^ 53) :: rat) \<le> of_int \<bar>m\<bar>" using b e by simp
      then have "2 ^ 53 \<le> \<bar>m\<bar>" by (simp only: of_int_le_iff)
      with assms show ?thesis by simp
    qed
    then have "m = 2 ^ 53 \<or> m = - (2 ^ 53)" by (simp add: abs_if split: if_splits)
    then have "?x / 2 powi (?e - 52) = of_int (m div 2)"
      using e by auto
    then show ?thesis by (rule fl_exactI)
  qed
qed

lemma fl_dyadic:
  assumes "\<bar>m\<bar> \<le> 2 ^ 53"
  shows "fl (of_int m * 2 powi k) = of_int m * 2 powi k"
  by (simp add: fl_scale fl_of_int[OF assms])


lemma round_half_even_eqI:
  assumes "of_int m - 1 / 2 < x" "x < of_int m + 1 / 2"
  shows "round_half_even x = m"
proof -
  have "\<lfloor>x\<rfloor> = m \<or> \<lfloor>x\<rfloor> = m - 1" using assms by linarith
  then show ?thesis
  proof
    assume f: "\<lfloor>x\<rfloor> = m"
    then show ?thesis using assms by (simp add: round_half_even_def Let_def)
  next
    assume f: "\<lfloor>x\<rfloor> = m - 1"
    then show ?thesis using assms by (simp add: round_half_even_def Let_def)
  qed
qed

lemma round_half_even_tie:
  "round_half_even (of_int n + 1 / 2) = (if even n then n else n + 1)"
proof -
  have "\<lfloor>of_int n + (1 / 2 :: rat)\<rfloor> = n" by linarith
  then show ?thesis by (simp add: round_half_even_def Let_def)
qed

lemma fl_eqI:
  assumes "0 < x" "2 powi e \<le> x" "x < 2 powi (e + 1)"
    and "of_int m - 1 / 2 < x / 2 powi (e - 52)" "x / 2 powi (e - 52) < of_int m + 1 / 2"
  shows "fl x = of_int m * 2 powi (e - 52)"
proof -
  from assms(1) have x: "x \<noteq> 0" "\<bar>x\<bar> = x" by simp_all
  have e: "ilog2 x = e" by (rule ilog2_unique[OF assms(1-3)])
  show ?thesis
    by (simp add: fl_def x e Let_def round_half_even_eqI[OF assms(4,5)])
qed

lemma fl_tieI:
  assumes "0 < x" "2 powi e \<le> x" "x < 2 powi (e + 1)"
    and "x / 2 powi (e - 52) = of_int n + 1 / 2"
  shows "fl x = of_int (if even n then n else n + 1) * 2 powi (e - 52)"
proof -
  from assms(1) have x: "x \<noteq> 0" "\<bar>x\<bar> = x" by simp_all
  have e: "ilog2 x = e" by (rule ilog2_unique[OF assms(1-3)])
  show ?thesis
    by (simp only: fl_def x e Let_def assms(4) round_half_even_tie if_False)
qed

lemma lit_0_05_val: "lit_0_05 = 3602879701896397 / 72057594037927936"
  unfolding lit_0_05_def
  by (rule fl_eqI[where e="-5" and m=7205759403792794, THEN trans]; simp)

lemma lit_0_1_val: "lit_0_1 = 3602879701896397 / 36028797018963968"
  unfolding lit_0_1_def
  by (rule fl_eqI[where e="-4" and m=7205759403792794, THEN trans]; simp)

lemma lit_1_2_val: "lit_1_2 = 5404319552844595 / 4503599627370496"
  unfolding lit_1_2_def
  by (rule fl_eqI[where e="0" and m=5404319552844595, THEN trans]; simp)

lemma fsub_step_1: "fsub (1) (3602879701896397 / 72057594037927936) = 4278419646001971 / 4503599627370496"
  unfolding fsub_def
  by (rule fl_eqI[where e="-1" and m=8556839292003942, THEN trans]; simp)

lemma fsub_step_2: "fsub (4278419646001971 / 4503599627370496) (3602879701896397 / 72057594037927936) = 2026619832316723 / 2251799813685248"
  unfolding fsub_def
  by (rule fl_eqI[where e="-1" and m=8106479329266892, THEN trans]; simp)

lemma fsub_step_3: "fsub (2026619832316723 / 2251799813685248) (3602879701896397 / 72057594037927936) = 3828059683264921 / 4503599627370496"
  unfolding fsub_def
  by (rule fl_eqI[where e="-1" and m=7656119366529842, THEN trans]; simp)

lemma fsub_step_4: "fsub (3828059683264921 / 4503599627370496) (3602879701896397 / 72057594037927936) = 900719925474099 / 1125899906842624"
  unfolding fsub_def
  by (rule fl_eqI[where e="-1" and m=7205759403792792, THEN trans]; simp)

lemma fsub_step_5: "fsub (900719925474099 / 1125899906842624) (3602879701896397 / 72057594037927936) = 3377699720527871 / 4503599627370496"
  unfolding fsub_def
  by (rule fl_eqI[where e="-1" and m=6755399441055742, THEN trans]; simp)

lemma fsub_step_6: "fsub (3377699720527871 / 4503599627370496) (3602879701896397 / 72057594037927936) = 1576259869579673 / 2251799813685248"
  unfolding fsub_def
  by (rule fl_eqI[where e="-1" and m=6305039478318692, THEN trans]; simp)

lemma fsub_step_7: "fsub (1576259869579673 / 2251799813685248) (3602879701896397 / 72057594037927936) = 2927339757790821 / 4503599627370496"
  unfolding fsub_def
  by (rule fl_eqI[where e="-1" and m=5854679515581642, THEN trans]; simp)

lemma fsub_step_8: "fsub (2927339757790821 / 4503599627370496) (3602879701896397 / 72057594037927936) = 337769972052787 / 562949953421312"
  unfolding fsub_def
  by (rule fl_eqI[where e="-1" and m=5404319552844592, THEN trans]; simp)

lemma fsub_step_9: "fsub (337769972052787 / 562949953421312) (3602879701896397 / 72057594037927936) = 2476979795053771 / 4503599627370496"
  unfolding fsub_def
  by (rule fl_eqI[where e="-1" and m=4953959590107542, THEN trans]; simp)

lemma fsub_step_10: "fsub (2476979795053771 / 4503599627370496) (3602879701896397 / 72057594037927936) = 9007199254740985 / 18014398509481984"
  unfolding fsub_def
  by (rule fl_eqI[where e="-2" and m=9007199254740985, THEN trans]; simp)

lemma fsub_step_11: "fsub (9007199254740985 / 18014398509481984) (3602879701896397 / 72057594037927936) = 4053239664633443 / 9007199254740992"
  unfolding fsub_def
  by (rule fl_eqI[where e="-2" and m=8106479329266886, THEN trans]; simp)

lemma fsub_step_12: "fsub (4053239664633443 / 9007199254740992) (3602879701896397 / 72057594037927936) = 7205759403792787 / 18014398509481984"
  unfolding fsub_def
  by (rule fl_eqI[where e="-2" and m=7205759403792787, THEN trans]; simp)

lemma fsub_step_13: "fsub (7205759403792787 / 18014398509481984) (3602879701896397 / 72057594037927936) = 197032483697459 / 562949953421312"
  unfolding fsub_def
  by (rule fl_eqI[where e="-2" and m=6305039478318688, THEN trans]; simp)

lemma fsub_step_14: "fsub (197032483697459 / 562949953421312) (3602879701896397 / 72057594037927936) = 5404319552844589 / 18014398509481984"
  unfolding fsub_def
  by (rule fl_eqI[where e="-2" and m=5404319552844589, THEN trans]; simp)

lemma fsub_step_15: "fsub (5404319552844589 / 18014398509481984) (3602879701896397 / 72057594037927936) = 2251799813685245 / 9007199254740992"
  unfolding fsub_def
  by (rule fl_tieI[where e="-3" and n=9007199254740979, THEN trans]; simp)

lemma fsub_step_16: "fsub (2251799813685245 / 9007199254740992) (3602879701896397 / 72057594037927936) = 3602879701896391 / 18014398509481984"
  unfolding fsub_def
  by (rule fl_tieI[where e="-3" and n=7205759403792781, THEN trans]; simp)

lemma fsub_step_17: "fsub (3602879701896391 / 18014398509481984) (3602879701896397 / 72057594037927936) = 675539944105573 / 4503599627370496"
  unfolding fsub_def
  by (rule fl_tieI[where e="-3" and n=5404319552844583, THEN trans]; simp)

lemma fsub_step_18: "fsub (675539944105573 / 4503599627370496) (3602879701896397 / 72057594037927936) = 7205759403792771 / 72057594037927936"
  unfolding fsub_def
  by (rule fl_eqI[where e="-4" and m=7205759403792771, THEN trans]; simp)

lemmas fsub_steps =
  fsub_step_1 fsub_step_2 fsub_step_3 fsub_step_4 fsub_step_5 fsub_step_6 fsub_step_7 fsub_step_8 fsub_step_9 fsub_step_10 fsub_step_11 fsub_step_12 fsub_step_13 fsub_step_14 fsub_step_15 fsub_step_16 fsub_step_17 fsub_step_18

lemma scale_after_18: "scale_after 18 = 7205759403792771 / 72057594037927936"
  by (simp add: eval_nat_numeral lit_0_05_val fsub_steps)

lemma scale_above_floor: "k < 18 \<Longrightarrow> lit_0_1 < scale_after k"
  by (auto simp: eval_nat_numeral less_Suc_eq lit_0_05_val lit_0_1_val fsub_steps)

lemma scale_at_floor: "\<not> lit_0_1 < scale_after 18"
  by (simp add: scale_after_18 lit_0_1_val)

section \<open>The quality search\<close>


lemma getCanvasBlob_Some:
  "toBlob B c f q = Some b \<Longrightarrow> getCanvasBlob B c f q cs = (Inr b, cs @ [ToBlob c f q])"
  by (simp add: getCanvasBlob_def)

lemma getCanvasBlob_None:
  "toBlob B c f q = None \<Longrightarrow> getCanvasBlob B c f q cs = (Inl EncodeError, cs @ [ToBlob c f q])"
  by (simp add: getCanvasBlob_def)

lemma dyadic_init: "dyadic 0 0 1"
  by (simp add: dyadic_def)

lemma dyadic_range:
  assumes "dyadic i lo hi"
  shows "0 \<le> lo \<and> lo < hi \<and> hi \<le> 1"
proof -
  from assms obtain a :: nat where a: "a < 2 ^ i" "lo = of_nat a / 2 ^ i" "hi = (of_nat a + 1) / 2 ^ i"
    by (auto simp: dyadic_def)
  have "of_nat a + 1 \<le> (2::rat) ^ i"
  proof -
    from a(1) have "Suc a \<le> 2 ^ i" by simp
    then have "(of_nat (Suc a) :: rat) \<le> of_nat (2 ^ i)" by (simp only: of_nat_le_iff)
    then show ?thesis by simp
  qed
  then show ?thesis unfolding a(2,3) by (simp add: divide_simps)
qed

lemma fl_nat_div_pow2:
  assumes "m \<le> 2 ^ 53"
  shows "fl (of_nat m / 2 ^ k) = of_nat m / 2 ^ k"
proof -
  have "fl (of_int (int m) * 2 powi (- int k)) = of_int (int m) * 2 powi (- int k)"
    using assms by (intro fl_dyadic) simp
  then show ?thesis by (simp add: power_int_minus field_simps)
qed

lemma dyadic_mid:
  assumes "dyadic i lo hi" "i \<le> 51"
  shows "fdiv (fadd lo hi) 2 = (lo + hi) / 2"
    and "dyadic (Suc i) lo ((lo + hi) / 2)"
    and "dyadic (Suc i) ((lo + hi) / 2) hi"
proof -
  from assms obtain a :: nat where a: "a < 2 ^ i" "lo = of_nat a / 2 ^ i" "hi = (of_nat a + 1) / 2 ^ i"
    by (auto simp: dyadic_def)
  have sum: "lo + hi = of_nat (2 * a + 1) / 2 ^ i"
    using a by (simp add: field_simps)
  have "2 * a + 1 < 2 * 2 ^ i" using a(1) by simp
  also have "\<dots> = (2::nat) ^ Suc i" by simp
  also have "\<dots> \<le> 2 ^ 53" using assms(2) by (intro power_increasing) auto
  finally have bnd: "2 * a + 1 \<le> 2 ^ 53" by simp
  have mid: "(lo + hi) / 2 = of_nat (2 * a + 1) / 2 ^ Suc i"
    using sum by simp
  have s1: "fl (lo + hi) = lo + hi"
    by (simp only: sum fl_nat_div_pow2[OF bnd])
  have s2: "fl ((lo + hi) / 2) = (lo + hi) / 2"
    by (simp only: mid fl_nat_div_pow2[OF bnd])
  show "fdiv (fadd lo hi) 2 = (lo + hi) / 2"
    by (simp add: fdiv_def fadd_def s1 s2)
  show "dyadic (Suc i) lo ((lo + hi) / 2)"
    unfolding dyadic_def
    by (rule exI[of _ "2 * a"]) (use a in \<open>simp add: mid field_simps\<close>)
  show "dyadic (Suc i) ((lo + hi) / 2) hi"
    unfolding dyadic_def
    by (rule exI[of _ "2 * a + 1"]) (use a in \<open>simp add: mid field_simps\<close>)
qed

lemma canvas_setup:
  "drawImage B (set_height B (set_width B canvas w) h) img w h = rendered B img w h"
  by (cases canvas) (simp add: drawImage_def set_height_def set_width_def rendered_def)

lemma iterations_Suc_left:
  "iterations B c f t (Suc k) st cs =
     (case quality_step B c f t st cs of
        (Inl e, cs1) \<Rightarrow> (Inl e, cs1)
      | (Inr st', cs1) \<Rightarrow> iterations B c f t k st' cs1)"
proof (induction k arbitrary: st cs)
  case 0
  then show ?case by (simp split: prod.splits sum.splits)
next
  case (Suc k)
  have "iterations B c f t (Suc (Suc k)) st cs =
      (case (case quality_step B c f t st cs of
               (Inl e, cs1) \<Rightarrow> (Inl e, cs1)
             | (Inr st', cs1) \<Rightarrow> iterations B c f t k st' cs1) of
         (Inl e, cs1) \<Rightarrow> (Inl e, cs1)
       | (Inr st', cs1) \<Rightarrow> quality_step B c f t st' cs1)"
    by (simp only: iterations.simps(2)[of B c f t "Suc k"] Suc)
  also have "\<dots> = (case quality_step B c f t st cs of
        (Inl e, cs1) \<Rightarrow> (Inl e, cs1)
      | (Inr st', cs1) \<Rightarrow> iterations B c f t (Suc k) st' cs1)"
  proof (cases "quality_step B c f t st cs")
    case (Pair r cs1)
    then show ?thesis by (cases r) simp_all
  qed
  finally show ?case .
qed

lemma quality_loop_iterations:
  "i + k = 10 \<Longrightarrow> quality_loop B c f t i st cs = iterations B c f t k st cs"
proof (induction k arbitrary: i st cs)
  case 0
  then show ?case by (subst quality_loop.simps) simp
next
  case (Suc k)
  from Suc.prems have i: "i < 10" "Suc i + k = 10" by simp_all
  show ?case
    by (subst quality_loop.simps, subst iterations_Suc_left)
       (simp add: i Suc.IH[OF i(2)] split: prod.splits sum.splits)
qed

lemma quality_step_cases:
  obtains (fail) "toBlob B c f (fdiv (fadd lo hi) 2) = None"
      "quality_step B c f t (lo, hi, best) cs = (Inl EncodeError, cs @ [ToBlob c f (fdiv (fadd lo hi) 2)])"
  | (fits) b where "toBlob B c f (fdiv (fadd lo hi) 2) = Some b" "of_nat (blob_size b) \<le> t"
      "quality_step B c f t (lo, hi, best) cs =
         (Inr (fdiv (fadd lo hi) 2, hi, Some b), cs @ [ToBlob c f (fdiv (fadd lo hi) 2)])"
  | (over) b where "toBlob B c f (fdiv (fadd lo hi) 2) = Some b" "t < of_nat (blob_size b)"
      "quality_step B c f t (lo, hi, best) cs =
         (Inr (lo, fdiv (fadd lo hi) 2, best), cs @ [ToBlob c f (fdiv (fadd lo hi) 2)])"
proof (cases "toBlob B c f (fdiv (fadd lo hi) 2)")
  case None
  then show ?thesis
    by (intro fail) (simp_all add: quality_step_def getCanvasBlob_def Let_def)
next
  case (Some b)
  show ?thesis
  proof (cases "of_nat (blob_size b) \<le> t")
    case True
    with Some show ?thesis
      by (intro fits[of b]) (simp_all add: quality_step_def getCanvasBlob_def Let_def)
  next
    case False
    with Some show ?thesis
      by (intro over[of b]) (simp_all add: quality_step_def getCanvasBlob_def Let_def)
  qed
qed

lemma iterations_post:
  "k \<le> 10 \<Longrightarrow> \<exists>r qs. iterations B c f t k (0, 1, None) cs = (r, cs @ map (ToBlob c f) qs)
      \<and> search_post B c f t k r qs"
proof (induction k)
  case 0
  show ?case
    by (rule exI[of _ "Inr (0, 1, None)"], rule exI[of _ "[]"])
       (simp add: search_post_def dyadic_init)
next
  case (Suc k)
  then obtain r qs where it: "iterations B c f t k (0, 1, None) cs = (r, cs @ map (ToBlob c f) qs)"
    and post: "search_post B c f t k r qs" by auto
  show ?case
  proof (cases r)
    case (Inl e)
    with it post show ?thesis
      by (intro exI[of _ "Inl e"] exI[of _ qs]) (simp add: search_post_def)
  next
    case (Inr st)
    obtain lo hi best where st: "st = (lo, hi, best)" by (cases st)
    from post Inr st have len: "length qs = k" and dy: "dyadic k lo hi"
      and inrange: "\<forall>q\<in>set qs. 0 < q \<and> q < 1"
      and best: "case best of
             Some b \<Rightarrow> of_nat (blob_size b) \<le> t \<and> (\<exists>q\<in>set qs. toBlob B c f q = Some b)
           | None \<Rightarrow> lo = 0 \<and> (\<forall>q\<in>set qs. \<forall>b. toBlob B c f q = Some b \<longrightarrow> t < of_nat (blob_size b))"
      by (simp_all add: search_post_def)
    from Suc.prems have k: "k \<le> 51" by simp
    let ?q = "(lo + hi) / 2"
    note mid = dyadic_mid[OF dy k]
    from dyadic_range[OF dy] have q01: "0 < ?q" "?q < 1" by auto
    let ?cs = "cs @ map (ToBlob c f) (qs @ [?q])"
    have step: "iterations B c f t (Suc k) (0, 1, None) cs =
        quality_step B c f t (lo, hi, best) (cs @ map (ToBlob c f) qs)"
      by (simp add: it Inr st)
    show ?thesis
    proof (cases rule: quality_step_cases[of B c f lo hi t best "cs @ map (ToBlob c f) qs"])
      case fail
      then show ?thesis unfolding step mid(1)
        by (intro exI[of _ "Inl EncodeError"] exI[of _ "qs @ [?q]"])
           (use len inrange q01 in \<open>auto simp: search_post_def\<close>)
    next
      case (fits b)
      then show ?thesis unfolding step mid(1)
        by (intro exI[of _ "Inr (?q, hi, Some b)"] exI[of _ "qs @ [?q]"])
           (use len inrange q01 mid(3) in \<open>auto simp: search_post_def\<close>)
    next
      case (over b)
      then show ?thesis unfolding step mid(1)
        by (intro exI[of _ "Inr (lo, ?q, best)"] exI[of _ "qs @ [?q]"])
           (use len inrange q01 mid(2) best in \<open>auto simp: search_post_def split: option.splits\<close>)
    qed
  qed
qed

lemma quality_step_calls:
  "quality_step B c f t st cs =
     (case quality_step B c f t st [] of (r, new) \<Rightarrow> (r, cs @ new))"
  by (cases st) (simp add: quality_step_def getCanvasBlob_def Let_def split: option.splits)

lemma iterations_calls:
  "iterations B c f t k st cs = (case iterations B c f t k st [] of (r, new) \<Rightarrow> (r, cs @ new))"
proof (induction k arbitrary: cs)
  case 0
  show ?case by simp
next
  case (Suc k)
  obtain r new where it: "iterations B c f t k st [] = (r, new)"
    by (cases "iterations B c f t k st []")
  show ?case
  proof (cases r)
    case (Inl e)
    then show ?thesis using Suc[of cs] it by simp
  next
    case (Inr st')
    then show ?thesis
      using Suc[of cs] it quality_step_calls[of B c f t st' "cs @ new"]
        quality_step_calls[of B c f t st' new]
      by (simp split: prod.splits)
  qed
qed

lemma processImage_decode_failed:
  "loadImage B file = Inl e \<Longrightarrow> processImage B file t fmt cs = Some (Inl e, cs)"
  by (simp add: processImage_def)

lemma loadImage_error: "loadImage B file = Inl e \<Longrightarrow> e = DecodeError"
  by (auto simp: loadImage_def split: option.splits)

lemma processImage_no_context:
  "loadImage B file = Inr img \<Longrightarrow> \<not> getContext B \<Longrightarrow>
     processImage B file t fmt cs = Some (Inl ContextError, cs)"
  by (simp add: processImage_def)

lemma processImage_lossy:
  assumes "loadImage B file = Inr img" "getContext B" "fmt \<noteq> ImagePng"
  shows "processImage B file t fmt cs =
     (case iterations B (intrinsic_canvas B img) fmt (fmul t 1024) 10 (0, 1, None)
             (cs @ [DrawImage img (width img) (height img)]) of
        (Inl e, cs1) \<Rightarrow> Some (Inl e, cs1)
      | (Inr (lo, hi, best), cs1) \<Rightarrow>
          (case best of
             Some b \<Rightarrow> Some (Inr (make_result b), cs1)
           | None \<Rightarrow>
               (case toBlob B (intrinsic_canvas B img) fmt lo of
                  None \<Rightarrow> Some (Inl EncodeError, cs1 @ [ToBlob (intrinsic_canvas B img) fmt lo])
                | Some fb \<Rightarrow>
                    if fmul (fmul t 1024) lit_1_2 < of_nat (blob_size fb)
                    then Some (Inl (UnreachableBudget t), cs1 @ [ToBlob (intrinsic_canvas B img) fmt lo])
                    else Some (Inr (make_result fb), cs1 @ [ToBlob (intrinsic_canvas B img) fmt lo]))))"
  using assms
  by (simp add: processImage_def canvas_setup intrinsic_canvas_def getCanvasBlob_def
      quality_loop_iterations[of 0 10] Let_def split: prod.splits sum.splits option.splits)

lemma spec_state_Suc: "spec_state enc t (Suc k) = spec_step enc t (spec_state enc t k)"
  by (simp add: spec_state_def)

lemma iterations_spec:
  assumes total: "\<And>q. toBlob B c f q \<noteq> None"
  shows "k \<le> 10 \<Longrightarrow>
    iterations B c f t k (0, 1, None) cs =
      (Inr (spec_state (encoder B c f) t k),
       cs @ map (\<lambda>j. ToBlob c f (spec_quality (encoder B c f) t j)) [0..<k])
    \<and> dyadic k (fst (spec_state (encoder B c f) t k)) (fst (snd (spec_state (encoder B c f) t k)))"
proof (induction k)
  case 0
  show ?case by (simp add: spec_state_def dyadic_init)
next
  case (Suc k)
  let ?enc = "encoder B c f"
  obtain lo hi best where st: "spec_state ?enc t k = (lo, hi, best)"
    by (cases "spec_state ?enc t k")
  from Suc st have it: "iterations B c f t k (0, 1, None) cs =
      (Inr (lo, hi, best), cs @ map (\<lambda>j. ToBlob c f (spec_quality ?enc t j)) [0..<k])"
    and dy: "dyadic k lo hi" by simp_all
  from Suc.prems have k: "k \<le> 51" by simp
  note mid = dyadic_mid[OF dy k]
  have q: "spec_quality ?enc t k = (lo + hi) / 2" by (simp add: spec_quality_def st)
  from total obtain b where b: "toBlob B c f ((lo + hi) / 2) = Some b" by auto
  then have enc: "?enc ((lo + hi) / 2) = b" by (simp add: encoder_def)
  have step: "quality_step B c f t (lo, hi, best) cs' =
      (Inr (spec_step ?enc t (lo, hi, best)), cs' @ [ToBlob c f ((lo + hi) / 2)])" for cs'
    by (simp add: quality_step_def spec_step_def getCanvasBlob_def mid(1) b enc Let_def)
  have "dyadic (Suc k) (fst (spec_step ?enc t (lo, hi, best))) (fst (snd (spec_step ?enc t (lo, hi, best))))"
    using mid(2,3) by (simp add: spec_step_def Let_def)
  then show ?case
    by (simp add: it step spec_state_Suc st q)
qed

lemma iterations_run_spec:
  "k \<le> 10 \<Longrightarrow> iterations B c f t k (0, 1, None) cs = (Inr st, cs') \<Longrightarrow>
     st = spec_state (encoder B c f) t k
     \<and> cs' = cs @ map (\<lambda>j. ToBlob c f (spec_quality (encoder B c f) t j)) [0..<k]
     \<and> dyadic k (fst st) (fst (snd st))"
proof (induction k arbitrary: st cs')
  case 0
  then show ?case by (auto simp: spec_state_def dyadic_init)
next
  case (Suc k)
  let ?enc = "encoder B c f"
  obtain r1 cs1 where it: "iterations B c f t k (0, 1, None) cs = (r1, cs1)"
    by (cases "iterations B c f t k (0, 1, None) cs")
  with Suc.prems(2) obtain st1 where r1: "r1 = Inr st1"
    by (cases r1) auto
  from Suc.prems(1) have "k \<le> 10" by simp
  from Suc.IH[OF this it[unfolded r1]]
  have st1: "st1 = spec_state ?enc t k"
    and cs1: "cs1 = cs @ map (\<lambda>j. ToBlob c f (spec_quality ?enc t j)) [0..<k]"
    and dy: "dyadic k (fst st1) (fst (snd st1))" by blast+
  obtain lo hi best where lhb: "st1 = (lo, hi, best)" by (cases st1)
  from Suc.prems(1) have k: "k \<le> 51" by simp
  from dy lhb have dy': "dyadic k lo hi" by simp
  note mid = dyadic_mid[OF dy' k]
  from st1 lhb have ss: "spec_state ?enc t k = (lo, hi, best)" by simp
  have q: "spec_quality ?enc t k = (lo + hi) / 2"
    by (simp add: spec_quality_def ss)
  from Suc.prems(2) it r1 lhb
  have step: "quality_step B c f t (lo, hi, best) cs1 = (Inr st, cs')" by simp
  show ?case
  proof (cases rule: quality_step_cases[of B c f lo hi t best cs1])
    case fail
    with step show ?thesis by simp
  next
    case (fits b)
    then have enc: "?enc ((lo + hi) / 2) = b" by (simp add: encoder_def mid(1))
    from fits step have "st = ((lo + hi) / 2, hi, Some b)" "cs' = cs1 @ [ToBlob c f ((lo + hi) / 2)]"
      by (simp_all add: mid(1))
    with fits(2) enc mid(3) show ?thesis
      by (simp add: spec_state_Suc ss spec_step_def Let_def cs1 q)
  next
    case (over b)
    then have enc: "?enc ((lo + hi) / 2) = b" by (simp add: encoder_def mid(1))
    from over step have "st = (lo, (lo + hi) / 2, best)" "cs' = cs1 @ [ToBlob c f ((lo + hi) / 2)]"
      by (simp_all add: mid(1))
    with over(2) enc mid(2) show ?thesis
      by (simp add: spec_state_Suc ss spec_step_def Let_def cs1 q not_le)
  qed
qed

lemma quality_search_iterations:
  "quality_search B img t fmt cs =
     iterations B (intrinsic_canvas B img) fmt (fmul t 1024) 10 (0, 1, None)
       (cs @ [DrawImage img (width img) (height img)])"
  by (simp add: quality_search_def quality_loop_iterations[of 0 10])

lemma quality_search_post:
  obtains r qs where
    "quality_search B img t fmt cs =
       (r, cs @ DrawImage img (width img) (height img) # map (ToBlob (intrinsic_canvas B img) fmt) qs)"
    "search_post B (intrinsic_canvas B img) fmt (fmul t 1024) 10 r qs"
  using iterations_post[of 10 B "intrinsic_canvas B img" fmt "fmul t 1024"
      "cs @ [DrawImage img (width img) (height img)]"]
  by (auto simp: quality_search_iterations)

lemma processImage_quality_search:
  assumes "loadImage B file = Inr img" "getContext B" "fmt \<noteq> ImagePng"
  shows "processImage B file t fmt cs =
     (case quality_search B img t fmt cs of
        (Inl e, cs1) \<Rightarrow> Some (Inl e, cs1)
      | (Inr (lo, hi, best), cs1) \<Rightarrow>
          (case best of
             Some b \<Rightarrow> Some (Inr (make_result b), cs1)
           | None \<Rightarrow>
               (case toBlob B (intrinsic_canvas B img) fmt lo of
                  None \<Rightarrow> Some (Inl EncodeError, cs1 @ [ToBlob (intrinsic_canvas B img) fmt lo])
                | Some fb \<Rightarrow>
                    if fmul (fmul t 1024) lit_1_2 < of_nat (blob_size fb)
                    then Some (Inl (UnreachableBudget t), cs1 @ [ToBlob (intrinsic_canvas B img) fmt lo])
                    else Some (Inr (make_result fb), cs1 @ [ToBlob (intrinsic_canvas B img) fmt lo]))))"
  by (simp only: processImage_lossy[OF assms] quality_search_iterations)

lemma no_fit_iff:
  "list_all (\<lambda>x. \<not> attempt_fits B t x) (DrawImage img w h # map (ToBlob c f) qs)
     \<longleftrightarrow> (\<forall>q\<in>set qs. \<forall>b. toBlob B c f q = Some b \<longrightarrow> t < of_nat (blob_size b))"
  by (auto simp: list_all_iff attempt_fits_def split: option.splits)

lemma encode_calls_map [simp]: "encode_calls (map (ToBlob c f) qs) = length qs"
  by (induction qs) (simp_all add: encode_calls_def)

lemma encode_calls_Cons [simp]:
  "encode_calls (DrawImage img w h # cs) = encode_calls cs"
  "encode_calls (ToBlob c f q # cs) = Suc (encode_calls cs)"
  by (simp_all add: encode_calls_def)

lemma encode_calls_append [simp]: "encode_calls (xs @ ys) = encode_calls xs + encode_calls ys"
  by (simp add: encode_calls_def)

lemma encode_calls_Nil [simp]: "encode_calls [] = 0"
  by (simp add: encode_calls_def)


section \<open>The dimension search\<close>

lemma shrink_from_bounds:
  "shrink_from B img t d k b = (r, n) \<Longrightarrow> k \<le> n \<and> n \<le> k + d"
proof (induction d arbitrary: k b)
  case 0
  then show ?case by simp
next
  case (Suc d)
  show ?case
  proof (cases "t < of_nat (blob_size b)")
    case False
    with Suc.prems show ?thesis by simp
  next
    case True
    show ?thesis
    proof (cases "toBlob B (shrunk_canvas B img (Suc k)) ImagePng 1")
      case None
      with True Suc.prems show ?thesis by simp
    next
      case (Some b')
      with True Suc.prems have "shrink_from B img t d (Suc k) b' = (r, n)" by simp
      from Suc.IH[OF this] show ?thesis by simp
    qed
  qed
qed

lemma shrink_calls_same [simp]: "shrink_calls B img k k = []"
  by (simp add: shrink_calls_def)

lemma shrink_calls_step:
  "k < n \<Longrightarrow> shrink_calls B img k n =
     [DrawImage img (cwidth (shrunk_canvas B img (Suc k))) (cheight (shrunk_canvas B img (Suc k))),
      ToBlob (shrunk_canvas B img (Suc k)) ImagePng 1] @ shrink_calls B img (Suc k) n"
  by (simp add: shrink_calls_def upt_conv_Cons del: upt_Suc)

lemma dims_after_set:
  "cwidth (set_height B (set_width B canvas w) h) = w"
  "cheight (set_height B (set_width B canvas w) h) = h"
  by (simp_all add: set_height_def set_width_def)

lemma rendered_dims:
  "cwidth (rendered B img w h) = w" "cheight (rendered B img w h) = h"
  by (simp_all add: rendered_def)

lemma shrunk_canvas_Suc:
  "shrunk_canvas B img (Suc k) =
     rendered B img (scaled_dim (width img) (scale_after (Suc k)))
       (scaled_dim (height img) (scale_after (Suc k)))"
  by (simp add: shrunk_canvas_def)

lemma shrink_loop_stop:
  assumes "\<not> (t < of_nat (blob_size b) \<and> lit_0_1 < scale)"
  shows "shrink_loop B img t b scale canvas cs = Some (Inr (b, scale, canvas), cs)"
  by (subst shrink_loop.simps) (simp only: assms if_False)

lemma shrink_loop_go:
  assumes "t < of_nat (blob_size b)" "lit_0_1 < scale_after k"
  shows "shrink_loop B img t b (scale_after k) canvas cs =
     (case toBlob B (shrunk_canvas B img (Suc k)) ImagePng 1 of
        None \<Rightarrow> Some (Inl EncodeError, cs @ shrink_calls B img k (Suc k))
      | Some b' \<Rightarrow> shrink_loop B img t b' (scale_after (Suc k)) (shrunk_canvas B img (Suc k))
                     (cs @ shrink_calls B img k (Suc k)))"
  using assms
  by (subst shrink_loop.simps)
     (simp add: Let_def canvas_setup dims_after_set getCanvasBlob_def shrunk_canvas_Suc
        scaled_dim_def shrink_calls_step rendered_dims split: option.splits)

lemma shrink_loop_eq:
  "k + d = 18 \<Longrightarrow>
   shrink_loop B img t b (scale_after k) (shrunk_canvas B img k) cs =
     (case shrink_from B img t d k b of
        (Inl e, n) \<Rightarrow> Some (Inl e, cs @ shrink_calls B img k n)
      | (Inr bn, n) \<Rightarrow>
          Some (Inr (bn, scale_after n, shrunk_canvas B img n), cs @ shrink_calls B img k n))"
proof (induction d arbitrary: k b cs)
  case 0
  then have "k = 18" by simp
  then show ?case using scale_at_floor by (simp add: shrink_loop_stop)
next
  case (Suc d)
  then have k: "k < 18" "Suc k + d = 18" by simp_all
  show ?case
  proof (cases "t < of_nat (blob_size b)")
    case False
    then show ?thesis by (simp add: shrink_loop_stop)
  next
    case True
    note go = shrink_loop_go[OF True scale_above_floor[OF k(1)]]
    show ?thesis
    proof (cases "toBlob B (shrunk_canvas B img (Suc k)) ImagePng 1")
      case None
      with True show ?thesis by (simp add: go)
    next
      case (Some b')
      obtain r n where sf: "shrink_from B img t d (Suc k) b' = (r, n)"
        by (cases "shrink_from B img t d (Suc k) b'")
      from shrink_from_bounds[OF sf] have "k < n" by simp
      note calls = shrink_calls_step[OF this, of B img]
      have one: "shrink_calls B img k (Suc k) =
          [DrawImage img (cwidth (shrunk_canvas B img (Suc k))) (cheight (shrunk_canvas B img (Suc k))),
           ToBlob (shrunk_canvas B img (Suc k)) ImagePng 1]"
        using shrink_calls_step[of k "Suc k" B img] by simp
      show ?thesis
        using True Some sf
        by (cases r) (simp_all add: go Suc.IH[OF k(2)] calls one del: scale_after.simps)
    qed
  qed
qed

lemma shrink_from_spec:
  assumes "shrink_from B img t d k b = (r, n)" "toBlob B (shrunk_canvas B img k) ImagePng 1 = Some b"
  shows "(\<forall>j. k \<le> j \<and> j < n \<longrightarrow>
            (\<exists>bj. toBlob B (shrunk_canvas B img j) ImagePng 1 = Some bj \<and> t < of_nat (blob_size bj)))
       \<and> (case r of
            Inl e \<Rightarrow> e = EncodeError \<and> toBlob B (shrunk_canvas B img n) ImagePng 1 = None
          | Inr bn \<Rightarrow> toBlob B (shrunk_canvas B img n) ImagePng 1 = Some bn
                      \<and> (of_nat (blob_size bn) \<le> t \<or> n = k + d))"
  using assms
proof (induction d arbitrary: k b)
  case 0
  then show ?case by auto
next
  case (Suc d)
  show ?case
  proof (cases "t < of_nat (blob_size b)")
    case False
    with Suc.prems show ?thesis by auto
  next
    case True
    show ?thesis
    proof (cases "toBlob B (shrunk_canvas B img (Suc k)) ImagePng 1")
      case None
      with True Suc.prems show ?thesis by (auto simp: less_Suc_eq)
    next
      case (Some b')
      with True Suc.prems have sf: "shrink_from B img t d (Suc k) b' = (r, n)" by simp
      note IH = Suc.IH[OF sf Some]
      have "\<exists>bj. toBlob B (shrunk_canvas B img j) ImagePng 1 = Some bj \<and> t < of_nat (blob_size bj)"
        if "k \<le> j" "j < n" for j
      proof (cases "j = k")
        case True
        with Suc.prems(2) \<open>t < of_nat (blob_size b)\<close> show ?thesis by simp
      next
        case False
        with that have "Suc k \<le> j \<and> j < n" by simp
        with IH show ?thesis by blast
      qed
      moreover from IH have "case r of
            Inl e \<Rightarrow> e = EncodeError \<and> toBlob B (shrunk_canvas B img n) ImagePng 1 = None
          | Inr bn \<Rightarrow> toBlob B (shrunk_canvas B img n) ImagePng 1 = Some bn
                      \<and> (of_nat (blob_size bn) \<le> t \<or> n = k + Suc d)"
        by (auto split: sum.splits)
      ultimately show ?thesis by blast
    qed
  qed
qed

lemma processImage_png:
  assumes "loadImage B file = Inr img" "getContext B"
  shows "processImage B file t ImagePng cs =
     (case toBlob B (shrunk_canvas B img 0) ImagePng 1 of
        None \<Rightarrow> Some (Inl EncodeError,
                  cs @ [DrawImage img (width img) (height img), ToBlob (shrunk_canvas B img 0) ImagePng 1])
      | Some b \<Rightarrow>
          (case shrink_from B img (fmul t 1024) 18 0 b of
             (Inl e, n) \<Rightarrow> Some (Inl e,
                  cs @ [DrawImage img (width img) (height img), ToBlob (shrunk_canvas B img 0) ImagePng 1]
                     @ shrink_calls B img 0 n)
           | (Inr bn, n) \<Rightarrow> Some (Inr (make_result bn),
                  cs @ [DrawImage img (width img) (height img), ToBlob (shrunk_canvas B img 0) ImagePng 1]
                     @ shrink_calls B img 0 n)))"
proof -
  let ?c0 = "intrinsic_canvas B img"
  let ?cs1 = "cs @ [DrawImage img (width img) (height img), ToBlob ?c0 ImagePng 1]"
  have c0: "shrunk_canvas B img 0 = ?c0" by (simp add: shrunk_canvas_def)
  have P: "processImage B file t ImagePng cs =
     (case toBlob B ?c0 ImagePng 1 of
        None \<Rightarrow> Some (Inl EncodeError, ?cs1)
      | Some b \<Rightarrow>
          (case shrink_loop B img (fmul t 1024) b 1 ?c0 ?cs1 of
             None \<Rightarrow> None
           | Some (Inl e, cs2) \<Rightarrow> Some (Inl e, cs2)
           | Some (Inr (lastBlob, scale, canvas'), cs2) \<Rightarrow> Some (Inr (make_result lastBlob), cs2)))"
    using assms
    by (simp add: processImage_def canvas_setup getCanvasBlob_def Let_def intrinsic_canvas_def
        split: option.splits)
  have L: "shrink_loop B img (fmul t 1024) b 1 ?c0 ?cs1 =
     (case shrink_from B img (fmul t 1024) 18 0 b of
        (Inl e, n) \<Rightarrow> Some (Inl e, ?cs1 @ shrink_calls B img 0 n)
      | (Inr bn, n) \<Rightarrow>
          Some (Inr (bn, scale_after n, shrunk_canvas B img n), ?cs1 @ shrink_calls B img 0 n))" for b
    using shrink_loop_eq[of 0 18 B img "fmul t 1024" b ?cs1] by (simp add: c0)
  show ?thesis
    unfolding P L c0
    by (simp split: option.splits prod.splits sum.splits)
qed

text \<open>The PNG branch, on a decodable image with a drawing context.\<close>

lemma last_shrink_calls:
  "k < n \<Longrightarrow> last (shrink_calls B img k n) = ToBlob (shrunk_canvas B img n) ImagePng 1"
  by (simp add: shrink_calls_def)

lemma shrink_calls_neq_Nil: "k < n \<Longrightarrow> shrink_calls B img k n \<noteq> []"
  by (simp add: shrink_calls_def)

lemma shrunk_canvas_rendered:
  "shrunk_canvas B img j = rendered B img (cwidth (shrunk_canvas B img j)) (cheight (shrunk_canvas B img j))"
  by (simp add: shrunk_canvas_def intrinsic_canvas_def rendered_dims)

lemma shrunk_canvas_dims:
  "cwidth (shrunk_canvas B img k) = (if k = 0 then width img else scaled_dim (width img) (scale_after k))"
  "cheight (shrunk_canvas B img k) = (if k = 0 then height img else scaled_dim (height img) (scale_after k))"
  by (simp_all add: shrunk_canvas_def intrinsic_canvas_def rendered_dims)

lemma set_shrink_calls:
  "x \<in> set (shrink_calls B img k n) \<Longrightarrow>
     \<exists>j. x = DrawImage img (cwidth (shrunk_canvas B img j)) (cheight (shrunk_canvas B img j))
        \<or> x = ToBlob (shrunk_canvas B img j) ImagePng 1"
  by (auto simp: shrink_calls_def)

lemma scale_floor_least: "k \<le> 18 \<Longrightarrow> scale_after 18 \<le> scale_after k"
proof (cases "k = 18")
  case False
  assume "k \<le> 18"
  with False have "k < 18" by simp
  from scale_above_floor[OF this] scale_at_floor show ?thesis by simp
qed simp

lemma png_run:
  assumes "loadImage B file = Inr img" "getContext B"
  obtains r n where "n \<le> 18"
    "processImage B file t ImagePng cs =
       Some (r, cs @ [DrawImage img (width img) (height img), ToBlob (shrunk_canvas B img 0) ImagePng 1]
                   @ shrink_calls B img 0 n)"
    "\<forall>j<n. \<exists>bj. toBlob B (shrunk_canvas B img j) ImagePng 1 = Some bj
              \<and> fmul t 1024 < of_nat (blob_size bj)"
    "case toBlob B (shrunk_canvas B img n) ImagePng 1 of
       None \<Rightarrow> r = Inl EncodeError
     | Some bn \<Rightarrow> r = Inr (make_result bn) \<and> (of_nat (blob_size bn) \<le> fmul t 1024 \<or> n = 18)"
proof (cases "toBlob B (shrunk_canvas B img 0) ImagePng 1")
  case None
  show ?thesis
    by (rule that[of 0 "Inl EncodeError"]) (simp_all add: processImage_png[OF assms] None)
next
  case (Some b)
  obtain r0 n where sf: "shrink_from B img (fmul t 1024) 18 0 b = (r0, n)"
    by (cases "shrink_from B img (fmul t 1024) 18 0 b")
  from shrink_from_bounds[OF sf] have n: "n \<le> 18" by simp
  note spec = shrink_from_spec[OF sf Some]
  show ?thesis
  proof (cases r0)
    case (Inl e)
    with spec have e: "e = EncodeError" "toBlob B (shrunk_canvas B img n) ImagePng 1 = None" by simp_all
    show ?thesis
      by (rule that[of n "Inl EncodeError"])
         (use n spec Inl e in \<open>simp_all add: processImage_png[OF assms] Some sf\<close>)
  next
    case (Inr bn)
    with spec have bn: "toBlob B (shrunk_canvas B img n) ImagePng 1 = Some bn"
      "of_nat (blob_size bn) \<le> fmul t 1024 \<or> n = 18" by simp_all
    show ?thesis
      by (rule that[of n "Inr (make_result bn)"])
         (use n spec Inr bn in \<open>simp_all add: processImage_png[OF assms] Some sf\<close>)
  qed
qed


section \<open>Example runs\<close>

lemma demo_loadImage [simp]:
  "loadImage (demo_browser sz) ''photo'' = Inr demo_image"
  "loadImage (demo_browser sz) ''noise'' = Inl DecodeError"
  by (simp_all add: loadImage_def demo_browser_def)

lemma demo_getContext [simp]: "getContext (demo_browser sz)"
  by (simp add: demo_browser_def)

lemma demo_toBlob [simp]:
  "toBlob (demo_browser sz) c f q = Some (replicate (sz (cwidth c) (cheight c) q) 0)"
  by (simp add: demo_browser_def)

lemma demo_rendered [simp]:
  "rendered (demo_browser sz) demo_image w h = \<lparr>cwidth = w, cheight = h, bitmap = 7\<rparr>"
  by (simp add: rendered_def demo_browser_def demo_image_def)

lemma demo_intrinsic [simp]: "intrinsic_canvas (demo_browser sz) demo_image = demo_canvas"
  by (simp add: intrinsic_canvas_def demo_canvas_def) (simp add: demo_image_def)

lemma demo_encoder [simp]:
  "encoder (demo_browser sz) c f q = replicate (sz (cwidth c) (cheight c) q) 0"
  by (simp add: encoder_def)

lemma blob_size_replicate [simp]: "blob_size (replicate n x) = n"
  by (simp add: blob_size_def)

lemma fmul_1024: "fl t = t \<Longrightarrow> fmul t 1024 = t * 1024"
  using fl_scale[of t 10] by (simp add: fmul_def)

lemma fl_numeral_100 [simp]: "fl 100 = 100"
  using fl_of_int[of 100] by simp

lemma budget_100 [simp]: "fmul 100 1024 = 102400"
  by (simp add: fmul_1024)

lemma flat_spec_state:
  assumes "\<And>q. enc q = big" "t < of_nat (blob_size big)"
  shows "spec_state enc t k = (0, 1 / 2 ^ k, None)"
  by (induction k) (simp_all add: spec_state_def spec_step_def assms Let_def not_le)

lemma flat_spec_quality:
  assumes "\<And>q. enc q = big" "t < of_nat (blob_size big)"
  shows "spec_quality enc t k = 1 / 2 ^ Suc k"
  by (simp add: spec_quality_def flat_spec_state[OF assms])

lemma flat_quality_search:
  assumes "\<And>q. toBlob B (intrinsic_canvas B img) fmt q = Some big"
    and "fmul t 1024 < of_nat (blob_size big)"
  shows "quality_search B img t fmt cs =
     (Inr (0, 1 / 1024, None),
      cs @ DrawImage img (width img) (height img)
         # map (ToBlob (intrinsic_canvas B img) fmt)
             [1 / 2, 1 / 4, 1 / 8, 1 / 16, 1 / 32, 1 / 64, 1 / 128, 1 / 256, 1 / 512, 1 / 1024])"
proof -
  have enc: "encoder B (intrinsic_canvas B img) fmt q = big" for q
    by (simp add: encoder_def assms(1))
  have tot: "toBlob B (intrinsic_canvas B img) fmt q \<noteq> None" for q
    by (simp add: assms(1))
  have up: "[0..<10] = [0, 1, 2, 3, 4, 5, 6, 7, 8, 9::nat]"
    by (simp add: upt_rec)
  show ?thesis
    using iterations_spec[of B "intrinsic_canvas B img" fmt 10 "fmul t 1024"
        "cs @ [DrawImage img (width img) (height img)]", OF tot]
    by (simp add: quality_search_iterations flat_spec_state[OF enc assms(2)]
        flat_spec_quality[OF enc assms(2)] up)
qed

lemma tolerance_100: "fmul 102400 lit_1_2 = 122880"
  unfolding fmul_def lit_1_2_val
  by (rule fl_eqI[where e="16" and m=8444249301319680, THEN trans]; simp)

lemma demo_flat_lossy_run:
  assumes "102400 < n" "fmt \<noteq> ImagePng"
  shows "processImage (demo_browser (flat_size n)) ''photo'' 100 fmt [] =
     Some (if 122880 < n then Inl (UnreachableBudget 100) else Inr (make_result (replicate n 0)),
       DrawImage demo_image 15 100
         # map (ToBlob demo_canvas fmt)
             [1 / 2, 1 / 4, 1 / 8, 1 / 16, 1 / 32, 1 / 64, 1 / 128, 1 / 256, 1 / 512, 1 / 1024, 0])"
proof -
  let ?B = "demo_browser (flat_size n)"
  have tb: "toBlob ?B (intrinsic_canvas ?B demo_image) fmt q = Some (replicate n 0)" for q
    by (simp add: flat_size_def)
  have over: "fmul 100 1024 < of_nat (blob_size (replicate n 0 :: Blob))"
    using assms(1) by simp
  have wh: "width demo_image = 15" "height demo_image = 100" by (simp_all add: demo_image_def)
  show ?thesis
    using assms(1)
    by (simp add: processImage_quality_search[OF demo_loadImage(1) demo_getContext assms(2)]
        flat_quality_search[OF tb over] wh tolerance_100 flat_size_def)
qed

lemma funpow_10: "(f ^^ 10) x = f (f (f (f (f (f (f (f (f (f x)))))))))"
  by (simp add: eval_nat_numeral)

lemma linear_spec_state:
  "spec_state (encoder (demo_browser linear_size) demo_canvas ImageJpeg) 102400 10 =
     (1 / 4, 257 / 1024, Some (replicate 102400 0))"
  by (simp add: spec_state_def funpow_10 spec_step_def linear_size_def Let_def)

lemma spec_state_numeral:
  "spec_state enc t (numeral k) = spec_step enc t (spec_state enc t (pred_numeral k))"
  by (simp add: spec_state_def numeral_eq_Suc)

lemma spec_state_0: "spec_state enc t 0 = (0, 1, None)"
  by (simp add: spec_state_def)

lemma demo_linear_quality_search:
  "quality_search (demo_browser linear_size) demo_image 100 ImageJpeg [] =
     (Inr (1 / 4, 257 / 1024, Some (replicate 102400 0)),
      DrawImage demo_image 15 100
        # map (ToBlob demo_canvas ImageJpeg)
            [1 / 2, 1 / 4, 3 / 8, 5 / 16, 9 / 32, 17 / 64, 33 / 128, 65 / 256, 129 / 512, 257 / 1024])"
proof -
  let ?B = "demo_browser linear_size"
  have tot: "toBlob ?B (intrinsic_canvas ?B demo_image) ImageJpeg q \<noteq> None" for q by simp
  have up: "[0..<10] = [0, 1, 2, 3, 4, 5, 6, 7, 8, 9::nat]"
    by (simp add: upt_rec)
  have wh: "width demo_image = 15" "height demo_image = 100" by (simp_all add: demo_image_def)
  have one: "spec_state enc t (Suc 0) = spec_step enc t (0, 1, None)" for enc t
    by (simp add: spec_state_def)
  show ?thesis
    using iterations_spec[of ?B "intrinsic_canvas ?B demo_image" ImageJpeg 10 "fmul 100 1024"
        "[DrawImage demo_image 15 100]", OF tot]
    by (simp add: quality_search_iterations wh up linear_spec_state spec_quality_def
        spec_state_numeral spec_state_0 one spec_step_def linear_size_def Let_def)
qed

lemma processImage_result:
  "processImage B file t fmt cs = Some (Inr res, cs') \<Longrightarrow> \<exists>b. res = make_result b"
  by (auto simp: processImage_def Let_def split: sum.splits prod.splits option.splits if_splits)

lemma finalSizeKB_exact:
  "blob_size b \<le> 2 ^ 53 \<Longrightarrow> fdiv (of_nat (blob_size b)) 1024 = of_nat (blob_size b) / 1024"
  using fl_nat_div_pow2[of "blob_size b" 10] by (simp add: fdiv_def)

lemma floor_rat_numeral_div [simp]:
  "\<lfloor>(numeral a / numeral b :: rat)\<rfloor> = numeral a div numeral b"
  using floor_divide_of_int_eq[of "numeral a" "numeral b", where ?'a = rat] by simp

lemma fmul_15_floor: "fmul 15 (7205759403792771 / 72057594037927936) = 6755399441055723 / 4503599627370496"
  unfolding fmul_def
  by (rule fl_eqI[where e="0" and m=6755399441055723, THEN trans]; simp)

lemma fmul_100_floor: "fmul 100 (7205759403792771 / 72057594037927936) = 2814749767106551 / 281474976710656"
  unfolding fmul_def
  by (rule fl_eqI[where e="3" and m=5629499534213102, THEN trans]; simp)

lemma demo_shrunk_canvas_18:
  "shrunk_canvas (demo_browser sz) demo_image 18 = \<lparr>cwidth = 1, cheight = 10, bitmap = 7\<rparr>"
proof -
  have wh: "width demo_image = 15" "height demo_image = 100" by (simp_all add: demo_image_def)
  show ?thesis
    by (simp add: shrunk_canvas_def scaled_dim_def scale_after_18 wh
        fmul_15_floor fmul_100_floor Math_round_def)
qed

lemma spec_dims_15_100:
  "spec_dims 15 100 =
     [(15, 100), (14, 95), (14, 90), (13, 85), (12, 80), (11, 75), (11, 70), (10, 65), (9, 60),
      (8, 55), (8, 50), (7, 45), (6, 40), (5, 35), (5, 30), (4, 25), (3, 20), (2, 15), (2, 10)]"
  by code_simp

lemma flat_shrink_from:
  assumes "\<And>c. toBlob B c ImagePng 1 = Some big" "t < of_nat (blob_size big)"
  shows "shrink_from B img t d k big = (Inr big, k + d)"
  by (induction d arbitrary: k) (simp_all add: assms)

lemma demo_flat_png_run:
  assumes "102400 < n"
  shows "processImage (demo_browser (flat_size n)) ''photo'' 100 ImagePng [] =
     Some (Inr (make_result (replicate n 0)),
       [DrawImage demo_image 15 100, ToBlob demo_canvas ImagePng 1]
         @ shrink_calls (demo_browser (flat_size n)) demo_image 0 18)"
    and "shrink_loop (demo_browser (flat_size n)) demo_image (fmul 100 1024) (replicate n 0) 1
           demo_canvas [DrawImage demo_image 15 100, ToBlob demo_canvas ImagePng 1] =
     Some (Inr (replicate n 0, scale_after 18, shrunk_canvas (demo_browser (flat_size n)) demo_image 18),
       [DrawImage demo_image 15 100, ToBlob demo_canvas ImagePng 1]
         @ shrink_calls (demo_browser (flat_size n)) demo_image 0 18)"
proof -
  let ?B = "demo_browser (flat_size n)"
  have tb: "toBlob ?B c ImagePng 1 = Some (replicate n 0)" for c
    by (simp add: flat_size_def)
  have over: "fmul 100 1024 < of_nat (blob_size (replicate n 0 :: Blob))"
    using assms by simp
  note sf = flat_shrink_from[of ?B "replicate n 0", OF tb over]
  have c0: "shrunk_canvas ?B demo_image 0 = demo_canvas" by (simp add: shrunk_canvas_def)
  have wh: "width demo_image = 15" "height demo_image = 100" by (simp_all add: demo_image_def)
  show "processImage ?B ''photo'' 100 ImagePng [] =
     Some (Inr (make_result (replicate n 0)),
       [DrawImage demo_image 15 100, ToBlob demo_canvas ImagePng 1] @ shrink_calls ?B demo_image 0 18)"
    using sf[of demo_image 18 0]
    by (simp add: processImage_png[OF demo_loadImage(1) demo_getContext] c0 wh flat_size_def)
  show "shrink_loop ?B demo_image (fmul 100 1024) (replicate n 0) 1
           demo_canvas [DrawImage demo_image 15 100, ToBlob demo_canvas ImagePng 1] =
     Some (Inr (replicate n 0, scale_after 18, shrunk_canvas ?B demo_image 18),
       [DrawImage demo_image 15 100, ToBlob demo_canvas ImagePng 1] @ shrink_calls ?B demo_image 0 18)"
    using shrink_loop_eq[of 0 18 ?B demo_image "fmul 100 1024" "replicate n 0"
        "[DrawImage demo_image 15 100, ToBlob demo_canvas ImagePng 1]"]
      sf[of demo_image 18 0]
    by (simp add: c0)
qed

lemma scale_after_1: "scale_after (Suc 0) = 4278419646001971 / 4503599627370496"
  by (simp add: eval_nat_numeral lit_0_05_val fsub_steps)

lemma scale_after_2: "scale_after 2 = 2026619832316723 / 2251799813685248"
  by (simp add: eval_nat_numeral lit_0_05_val fsub_steps)

lemma fmul_15_scale_1: "fmul 15 (4278419646001971 / 4503599627370496) = 57 / 4"
  unfolding fmul_def
  by (rule fl_eqI[where e="3" and m=8022036836253696, THEN trans]; simp)

lemma fmul_100_scale_1: "fmul 100 (4278419646001971 / 4503599627370496) = 95"
  unfolding fmul_def
  by (rule fl_eqI[where e="6" and m=6685030696878080, THEN trans]; simp)

lemma fmul_15_scale_2: "fmul 15 (2026619832316723 / 2251799813685248) = 7599824371187711 / 562949953421312"
  unfolding fmul_def
  by (rule fl_eqI[where e="3" and m=7599824371187711, THEN trans]; simp)

lemma fmul_100_scale_2: "fmul 100 (2026619832316723 / 2251799813685248) = 6333186975989759 / 70368744177664"
  unfolding fmul_def
  by (rule fl_eqI[where e="6" and m=6333186975989759, THEN trans]; simp)

lemma shrink_from_unfold:
  "0 < d \<Longrightarrow> shrink_from B img t d k b =
     (if t < of_nat (blob_size b) then
        (case toBlob B (shrunk_canvas B img (Suc k)) ImagePng 1 of
           None \<Rightarrow> (Inl EncodeError, Suc k)
         | Some b' \<Rightarrow> shrink_from B img t (d - 1) (Suc k) b')
      else (Inr b, k))"
  by (cases d) (auto split: option.splits)

lemma demo_shrunk_canvas_1:
  "shrunk_canvas (demo_browser sz) demo_image (Suc 0) = \<lparr>cwidth = 14, cheight = 95, bitmap = 7\<rparr>"
proof -
  have wh: "width demo_image = 15" "height demo_image = 100" by (simp_all add: demo_image_def)
  show ?thesis
    by (simp add: shrunk_canvas_def scaled_dim_def scale_after_1 wh lit_0_05_val fsub_steps
        fmul_15_scale_1 fmul_100_scale_1 Math_round_def del: scale_after.simps)
qed

lemma demo_shrunk_canvas_2:
  "shrunk_canvas (demo_browser sz) demo_image 2 = \<lparr>cwidth = 13, cheight = 90, bitmap = 7\<rparr>"
proof -
  have wh: "width demo_image = 15" "height demo_image = 100" by (simp_all add: demo_image_def)
  show ?thesis
    by (simp add: shrunk_canvas_def scaled_dim_def scale_after_2 wh
        fmul_15_scale_2 fmul_100_scale_2 Math_round_def)
qed

lemma demo_shrunk_canvas_2':
  "shrunk_canvas (demo_browser sz) demo_image (Suc (Suc 0)) = \<lparr>cwidth = 13, cheight = 90, bitmap = 7\<rparr>"
  using demo_shrunk_canvas_2[of sz] by (simp only: numeral_2_eq_2)

lemma demo_area_shrink_from:
  "shrink_from (demo_browser area_size) demo_image 102400 18 0 (replicate 127500 0) =
     (Inr (replicate 99450 0), 2)"
proof -
  have c0: "shrunk_canvas (demo_browser area_size) demo_image 0 = demo_canvas"
    by (simp add: shrunk_canvas_def)
  have two: "Suc (Suc 0) = 2" by simp
  show ?thesis
    by (simp add: shrink_from_unfold demo_shrunk_canvas_1 demo_shrunk_canvas_2 two area_size_def
        del: shrink_from.simps)
qed

lemma demo_area_png_run:
  "processImage (demo_browser area_size) ''photo'' 100 ImagePng [] =
     Some (Inr (make_result (replicate 99450 0)),
       [DrawImage demo_image 15 100, ToBlob demo_canvas ImagePng 1,
        DrawImage demo_image 14 95, ToBlob \<lparr>cwidth = 14, cheight = 95, bitmap = 7\<rparr> ImagePng 1,
        DrawImage demo_image 13 90, ToBlob \<lparr>cwidth = 13, cheight = 90, bitmap = 7\<rparr> ImagePng 1])"
proof -
  have c0: "shrunk_canvas (demo_browser area_size) demo_image 0 = demo_canvas"
    by (simp add: shrunk_canvas_def)
  have wh: "width demo_image = 15" "height demo_image = 100" by (simp_all add: demo_image_def)
  have b0: "toBlob (demo_browser area_size) demo_canvas ImagePng 1 = Some (replicate 127500 0)"
    by (simp add: area_size_def demo_canvas_def)
  have calls: "shrink_calls (demo_browser area_size) demo_image 0 2 =
       [DrawImage demo_image 14 95, ToBlob \<lparr>cwidth = 14, cheight = 95, bitmap = 7\<rparr> ImagePng 1,
        DrawImage demo_image 13 90, ToBlob \<lparr>cwidth = 13, cheight = 90, bitmap = 7\<rparr> ImagePng 1]"
    by (simp add: shrink_calls_def upt_rec demo_shrunk_canvas_1 demo_shrunk_canvas_2')
  show ?thesis
    by (simp add: processImage_png[OF demo_loadImage(1) demo_getContext] c0 wh
        area_size_def demo_canvas_def
        demo_area_shrink_from calls)
qed


section \<open>Runs over a browser with a state\<close>

text \<open>
  Over a browser whose answers are those of \<open>B\<close> in every state, each function with the
  state passed along returns what its counterpart over \<open>B\<close> returns.
\<close>

lemma loadImage_w_pure:
  assumes "\<And>w. answers W w = B"
  shows "fst (loadImage_w W file w) = loadImage B file"
  by (simp add: loadImage_w_def loadImage_def assms Let_def split: option.splits)

lemma getCanvasBlob_w_pure:
  assumes "\<And>w. answers W w = B"
  shows "fst (getCanvasBlob_w W c f q w) = fst (getCanvasBlob B c f q cs)"
  by (simp add: getCanvasBlob_w_def getCanvasBlob_def assms Let_def split: option.splits)

lemma quality_step_w_pure:
  assumes "\<And>w. answers W w = B"
  shows "fst (quality_step_w W c f t st w) = fst (quality_step B c f t st cs)"
  by (cases st)
     (simp add: quality_step_w_def quality_step_def getCanvasBlob_w_def getCanvasBlob_def assms Let_def
        split: option.splits)

lemma quality_loop_w_pure:
  assumes P: "\<And>w. answers W w = B"
  shows "i + k = 10 \<Longrightarrow> fst (quality_loop_w W c f t i st w) = fst (quality_loop B c f t i st cs)"
proof (induction k arbitrary: i st w cs)
  case 0
  then show ?case by (subst quality_loop.simps, subst quality_loop_w.simps) simp
next
  case (Suc k)
  from Suc.prems have i: "i < 10" "Suc i + k = 10" by simp_all
  obtain r w1 where sw: "quality_step_w W c f t st w = (r, w1)"
    by (cases "quality_step_w W c f t st w")
  obtain r' cs1 where s: "quality_step B c f t st cs = (r', cs1)"
    by (cases "quality_step B c f t st cs")
  from quality_step_w_pure[OF P, of c f t st w cs] sw s have rr: "r' = r" by simp
  show ?case
    by (subst quality_loop.simps, subst quality_loop_w.simps)
       (cases r; simp add: i sw s rr Suc.IH[OF i(2)])
qed

lemma shrink_loop_w_stop:
  assumes "\<not> (t < of_nat (blob_size b) \<and> lit_0_1 < scale)"
  shows "shrink_loop_w W img t b scale canvas w = Some (Inr (b, scale, canvas), w)"
  by (subst shrink_loop_w.simps) (simp only: assms if_False)

lemma shrink_loop_w_go:
  assumes P: "\<And>w. answers W w = B"
    and "t < of_nat (blob_size b)" "lit_0_1 < scale_after k"
  shows "\<exists>w'. shrink_loop_w W img t b (scale_after k) canvas w =
     (case toBlob B (shrunk_canvas B img (Suc k)) ImagePng 1 of
        None \<Rightarrow> Some (Inl EncodeError, w')
      | Some b' \<Rightarrow> shrink_loop_w W img t b' (scale_after (Suc k)) (shrunk_canvas B img (Suc k)) w')"
  using assms(2,3)
  by (subst shrink_loop_w.simps)
     (auto simp: Let_def P canvas_setup dims_after_set getCanvasBlob_w_def shrunk_canvas_Suc
        scaled_dim_def rendered_dims split: option.splits)

lemma shrink_loop_w_pure:
  assumes P: "\<And>w. answers W w = B"
  shows "k + d = 18 \<Longrightarrow>
   map_option fst (shrink_loop_w W img t b (scale_after k) (shrunk_canvas B img k) w) =
     (case shrink_from B img t d k b of
        (Inl e, n) \<Rightarrow> Some (Inl e)
      | (Inr bn, n) \<Rightarrow> Some (Inr (bn, scale_after n, shrunk_canvas B img n)))"
proof (induction d arbitrary: k b w)
  case 0
  then have "k = 18" by simp
  then show ?case using scale_at_floor by (simp add: shrink_loop_w_stop)
next
  case (Suc d)
  then have k: "k < 18" "Suc k + d = 18" by simp_all
  show ?case
  proof (cases "t < of_nat (blob_size b)")
    case False
    then show ?thesis by (simp add: shrink_loop_w_stop)
  next
    case True
    from shrink_loop_w_go[OF P True scale_above_floor[OF k(1)], of img "shrunk_canvas B img k" w]
    obtain w' where go: "shrink_loop_w W img t b (scale_after k) (shrunk_canvas B img k) w =
     (case toBlob B (shrunk_canvas B img (Suc k)) ImagePng 1 of
        None \<Rightarrow> Some (Inl EncodeError, w')
      | Some b' \<Rightarrow> shrink_loop_w W img t b' (scale_after (Suc k)) (shrunk_canvas B img (Suc k)) w')"
      by blast
    show ?thesis
    proof (cases "toBlob B (shrunk_canvas B img (Suc k)) ImagePng 1")
      case None
      with True show ?thesis by (simp add: go)
    next
      case (Some b')
      with True show ?thesis
        by (simp add: go Suc.IH[OF k(2)] del: scale_after.simps)
    qed
  qed
qed


lemma shrink_loop_w_result:
  assumes P: "\<And>w. answers W w = B"
  shows "\<exists>w'. shrink_loop_w W img t b 1 (intrinsic_canvas B img) w =
     Some (case shrink_from B img t 18 0 b of
             (Inl e, n) \<Rightarrow> Inl e
           | (Inr bn, n) \<Rightarrow> Inr (bn, scale_after n, shrunk_canvas B img n), w')"
proof -
  have c0: "shrunk_canvas B img 0 = intrinsic_canvas B img" by (simp add: shrunk_canvas_def)
  obtain r n where sf: "shrink_from B img t 18 0 b = (r, n)"
    by (cases "shrink_from B img t 18 0 b")
  from shrink_loop_w_pure[OF P, of 0 18 img t b w]
  show ?thesis
    by (cases r) (auto simp: c0 sf)
qed

lemma processImage_w_pure:
  assumes P: "\<And>w. answers W w = B"
  shows "map_option fst (processImage_w W file t fmt w) = map_option fst (processImage B file t fmt cs)"
proof -
  obtain li w1 where lw: "loadImage_w W file w = (li, w1)"
    by (cases "loadImage_w W file w")
  with loadImage_w_pure[OF P, of "file" w] have li: "loadImage B file = li" by simp
  show ?thesis
  proof (cases li)
    case (Inl e)
    with lw li show ?thesis by (simp add: processImage_w_def processImage_def)
  next
    case (Inr img)
    show ?thesis
    proof (cases "getContext B")
      case False
      with lw li Inr show ?thesis by (simp add: processImage_w_def processImage_def P Let_def)
    next
      case True
      let ?c = "intrinsic_canvas B img"
      let ?T = "fmul t 1024"
      define w6 where "w6 = advance W (Draw img (width img) (height img))
          (advance W (SetHeight (height img)) (advance W (SetWidth (width img))
             (advance W GetContext (advance W CreateCanvas w1))))"
      have li': "loadImage B file = Inr img" using li Inr by simp
      show ?thesis
      proof (cases "fmt = ImagePng")
        case png: True
        have PW: "processImage_w W file t ImagePng w =
           (case toBlob B ?c ImagePng 1 of
              None \<Rightarrow> Some (Inl EncodeError, advance W (Encode ?c ImagePng 1) w6)
            | Some b \<Rightarrow>
                (case shrink_loop_w W img ?T b 1 ?c (advance W (Encode ?c ImagePng 1) w6) of
                   None \<Rightarrow> None
                 | Some (Inl e, w8) \<Rightarrow> Some (Inl e, w8)
                 | Some (Inr (lastBlob, scale, canvas'), w8) \<Rightarrow> Some (Inr (make_result lastBlob), w8)))"
          using True
          by (simp add: processImage_w_def lw Inr P canvas_setup w6_def Let_def intrinsic_canvas_def
              getCanvasBlob_w_def split: option.splits)
        have c0: "shrunk_canvas B img 0 = ?c" by (simp add: shrunk_canvas_def)
        show ?thesis
        proof (cases "toBlob B ?c ImagePng 1")
          case None
          then show ?thesis
            unfolding png PW processImage_png[OF li' True] c0 by simp
        next
          case (Some b)
          from shrink_loop_w_result[OF P, of img ?T b "advance W (Encode ?c ImagePng 1) w6"]
          obtain w' where sl: "shrink_loop_w W img ?T b 1 ?c (advance W (Encode ?c ImagePng 1) w6) =
             Some (case shrink_from B img ?T 18 0 b of
                     (Inl e, n) \<Rightarrow> Inl e
                   | (Inr bn, n) \<Rightarrow> Inr (bn, scale_after n, shrunk_canvas B img n), w')"
            by blast
          obtain r n where sf: "shrink_from B img ?T 18 0 b = (r, n)"
            by (cases "shrink_from B img ?T 18 0 b")
          show ?thesis
            unfolding png PW processImage_png[OF li' True] c0
            by (cases r) (simp_all add: Some sl sf)
        qed
      next
        case False
        let ?cs0 = "cs @ [DrawImage img (width img) (height img)]"
        obtain r w7 where qw: "quality_loop_w W ?c fmt ?T 0 (0, 1, None) w6 = (r, w7)"
          by (cases "quality_loop_w W ?c fmt ?T 0 (0, 1, None) w6")
        obtain r' cs1 where q: "quality_loop B ?c fmt ?T 0 (0, 1, None) ?cs0 = (r', cs1)"
          by (cases "quality_loop B ?c fmt ?T 0 (0, 1, None) ?cs0")
        from quality_loop_w_pure[OF P, of 0 10 ?c fmt ?T "(0, 1, None)" w6 ?cs0] qw q
        have rr: "r' = r" by simp
        have PW: "processImage_w W file t fmt w =
           (case r of
              Inl e \<Rightarrow> Some (Inl e, w7)
            | Inr (minQuality, maxQuality, bestBlob) \<Rightarrow>
                (case bestBlob of
                   Some b \<Rightarrow> Some (Inr (make_result b), w7)
                 | None \<Rightarrow>
                     (case getCanvasBlob_w W ?c fmt minQuality w7 of
                        (Inl e, w8) \<Rightarrow> Some (Inl e, w8)
                      | (Inr fallbackBlob, w8) \<Rightarrow>
                          if fmul ?T lit_1_2 < of_nat (blob_size fallbackBlob)
                          then Some (Inl (UnreachableBudget t), w8)
                          else Some (Inr (make_result fallbackBlob), w8))))"
          using True False qw
          by (simp add: processImage_w_def lw Inr P canvas_setup w6_def[symmetric] Let_def
              intrinsic_canvas_def split: sum.splits)
        have PB: "processImage B file t fmt cs =
           (case r of
              Inl e \<Rightarrow> Some (Inl e, cs1)
            | Inr (minQuality, maxQuality, bestBlob) \<Rightarrow>
                (case bestBlob of
                   Some b \<Rightarrow> Some (Inr (make_result b), cs1)
                 | None \<Rightarrow>
                     (case getCanvasBlob B ?c fmt minQuality cs1 of
                        (Inl e, cs2) \<Rightarrow> Some (Inl e, cs2)
                      | (Inr fallbackBlob, cs2) \<Rightarrow>
                          if fmul ?T lit_1_2 < of_nat (blob_size fallbackBlob)
                          then Some (Inl (UnreachableBudget t), cs2)
                          else Some (Inr (make_result fallbackBlob), cs2))))"
          using True False q rr li'
          by (simp add: processImage_def canvas_setup Let_def intrinsic_canvas_def split: sum.splits)
        show ?thesis
          unfolding PW PB
          by (simp add: getCanvasBlob_w_def getCanvasBlob_def P Let_def
              split: sum.splits prod.splits option.splits)
      qed
    qed
  qed
qed


lemma processImage_returns:
  "\<exists>r new. \<forall>cs. processImage B file t fmt cs = Some (r, cs @ new)"
proof (cases "loadImage B file")
  case (Inl e)
  then show ?thesis by (simp add: processImage_decode_failed)
next
  case (Inr img)
  show ?thesis
  proof (cases "getContext B")
    case False
    with Inr show ?thesis by (simp add: processImage_no_context)
  next
    case True
    show ?thesis
    proof (cases "fmt = ImagePng")
      case png: True
      show ?thesis
      proof (cases "toBlob B (shrunk_canvas B img 0) ImagePng 1")
        case None
        then show ?thesis
          unfolding png processImage_png[OF Inr True] by simp
      next
        case (Some b)
        obtain r0 n where sf: "shrink_from B img (fmul t 1024) 18 0 b = (r0, n)"
          by (cases "shrink_from B img (fmul t 1024) 18 0 b")
        show ?thesis
          unfolding png processImage_png[OF Inr True] by (cases r0) (simp_all add: Some sf)
      qed
    next
      case False
      let ?it = "iterations B (intrinsic_canvas B img) fmt (fmul t 1024) 10 (0, 1, None)"
      obtain r new where it: "?it [] = (r, new)" by (cases "?it []")
      have "?it xs = (r, xs @ new)" for xs
        using iterations_calls[of B "intrinsic_canvas B img" fmt "fmul t 1024" 10 "(0, 1, None)" xs]
        by (simp add: it)
      then have run: "processImage B file t fmt cs =
          (case r of
             Inl e \<Rightarrow> Some (Inl e, (cs @ [DrawImage img (width img) (height img)]) @ new)
           | Inr (lo, hi, best) \<Rightarrow>
               (case best of
                  Some b \<Rightarrow> Some (Inr (make_result b), (cs @ [DrawImage img (width img) (height img)]) @ new)
                | None \<Rightarrow>
                    (case toBlob B (intrinsic_canvas B img) fmt lo of
                       None \<Rightarrow> Some (Inl EncodeError,
                         ((cs @ [DrawImage img (width img) (height img)]) @ new)
                           @ [ToBlob (intrinsic_canvas B img) fmt lo])
                     | Some fb \<Rightarrow>
                         if fmul (fmul t 1024) lit_1_2 < of_nat (blob_size fb)
                         then Some (Inl (UnreachableBudget t),
                           ((cs @ [DrawImage img (width img) (height img)]) @ new)
                             @ [ToBlob (intrinsic_canvas B img) fmt lo])
                         else Some (Inr (make_result fb),
                           ((cs @ [DrawImage img (width img) (height img)]) @ new)
                             @ [ToBlob (intrinsic_canvas B img) fmt lo]))))" for cs
        unfolding processImage_lossy[OF Inr True False]
        by (simp split: sum.splits prod.splits option.splits)
      show ?thesis
      proof (cases r)
        case (Inl e)
        then show ?thesis unfolding run by simp
      next
        case r: (Inr st)
        obtain lo hi best where st: "st = (lo, hi, best)" by (cases st)
        show ?thesis
        proof (cases best)
          case (Some b)
          then show ?thesis unfolding run r st by simp
        next
          case None
          show ?thesis
          proof (cases "toBlob B (intrinsic_canvas B img) fmt lo")
            case n: None
            then show ?thesis unfolding run r st None by simp
          next
            case (Some fb)
            then show ?thesis unfolding run r st None
              by (cases "fmul (fmul t 1024) lit_1_2 < of_nat (blob_size fb)") simp_all
          qed
        qed
      qed
    qed
  qed
qed

lemma demo_stateful_png_run:
  assumes "sz (w + 7) 15 100 1 \<le> 102400"
  shows "processImage_w (demo_stateful sz) ''photo'' 100 ImagePng w =
     Some (Inr \<lparr>blob = replicate (sz (w + 7) 15 100 1) 0,
                finalSizeKB = of_nat (sz (w + 7) 15 100 1) / 1024\<rparr>, w + 8)"
proof -
  let ?n = "sz (w + 7) 15 100 1"
  have kb: "fdiv (of_nat (blob_size (replicate ?n 0 :: Blob))) 1024 = of_nat ?n / 1024"
    using finalSizeKB_exact[of "replicate ?n 0"] assms by simp
  have le: "rat_of_nat ?n \<le> 102400"
    using assms by (metis of_nat_le_iff of_nat_numeral)
  have seven: "Suc (Suc (Suc (Suc (Suc (Suc (Suc w)))))) = w + 7" by simp
  have eight: "Suc (w + 7) = w + 8" by simp
  show ?thesis
    using kb le
    by (simp add: processImage_w_def loadImage_w_def getCanvasBlob_w_def demo_stateful_def
        shrink_loop_w_stop make_result_def Let_def demo_browser_def demo_image_def
        createElement_def set_width_def set_height_def drawImage_def seven eight)
qed

lemma impure_backend_runs_differ:
  "\<not> pure_backend (demo_stateful flat_size)
   \<and> processImage_w (demo_stateful flat_size) ''photo'' 100 ImagePng 0 =
       Some (Inr \<lparr>blob = replicate 7 0, finalSizeKB = 7 / 1024\<rparr>, 8)
   \<and> processImage_w (demo_stateful flat_size) ''photo'' 100 ImagePng 8 =
       Some (Inr \<lparr>blob = replicate 15 0, finalSizeKB = 15 / 1024\<rparr>, 16)"
proof -
  have "answers (demo_stateful flat_size) 0 \<noteq> answers (demo_stateful flat_size) 1"
  proof
    assume "answers (demo_stateful flat_size) 0 = answers (demo_stateful flat_size) 1"
    then have "toBlob (answers (demo_stateful flat_size) 0) demo_canvas ImagePng 1
        = toBlob (answers (demo_stateful flat_size) 1) demo_canvas ImagePng 1"
      by simp
    then show False by (simp add: demo_stateful_def flat_size_def)
  qed
  then have "\<not> pure_backend (demo_stateful flat_size)"
    unfolding pure_backend_def by blast
  then show ?thesis
    using demo_stateful_png_run[of flat_size 0] demo_stateful_png_run[of flat_size 8]
    by (simp add: flat_size_def)
qed


section \<open>The claims\<close>

text \<open>
  Claim C1. For JPEG and WebP, on a decodable image, whenever the loop completes (no
  encoder call in it fails), the canvas has the image's own width and height and the loop
  was exactly ten iterations of the binary search in exact arithmetic from
  \<open>minQuality = 0\<close> and \<open>maxQuality = 1\<close>: iteration \<open>k\<close> encodes at
  \<open>(minQuality + maxQuality) / 2\<close>; a blob of at most \<^verbatim>\<open>targetSizeKB * 1024\<close> bytes becomes
  the best blob and its quality the new \<open>minQuality\<close>, otherwise the quality becomes the new
  \<open>maxQuality\<close>. When there is a best blob after the ten iterations, \<^verbatim>\<open>processImage\<close>
  returns without a further encoder call, and the \<open>blob\<close> of its result is that best blob,
  the \<open>finalSizeKB\<close> its size divided by 1024.
\<close>

theorem binary_search_runs_ten_iterations:
  assumes "fmt \<noteq> ImagePng" "loadImage B file = Inr img" "getContext B"
    and "quality_search B img t fmt cs = (Inr st, cs1)"
  shows "cwidth (intrinsic_canvas B img) = width img \<and> cheight (intrinsic_canvas B img) = height img
    \<and> st = spec_state (encoder B (intrinsic_canvas B img) fmt) (fmul t 1024) 10
    \<and> cs1 = cs @ DrawImage img (width img) (height img)
               # map (\<lambda>k. ToBlob (intrinsic_canvas B img) fmt
                       (spec_quality (encoder B (intrinsic_canvas B img) fmt) (fmul t 1024) k)) [0..<10]
    \<and> (\<forall>lo hi b. st = (lo, hi, Some b)
          \<longrightarrow> processImage B file t fmt cs =
                Some (Inr \<lparr>blob = b, finalSizeKB = fdiv (of_nat (blob_size b)) 1024\<rparr>, cs1))"
proof -
  from assms(4) have it: "iterations B (intrinsic_canvas B img) fmt (fmul t 1024) 10 (0, 1, None)
       (cs @ [DrawImage img (width img) (height img)]) = (Inr st, cs1)"
    by (simp add: quality_search_iterations)
  from iterations_run_spec[OF _ it]
  have st: "st = spec_state (encoder B (intrinsic_canvas B img) fmt) (fmul t 1024) 10"
    and cs1: "cs1 = cs @ DrawImage img (width img) (height img)
               # map (\<lambda>k. ToBlob (intrinsic_canvas B img) fmt
                       (spec_quality (encoder B (intrinsic_canvas B img) fmt) (fmul t 1024) k)) [0..<10]"
    by simp_all
  have dims: "cwidth (intrinsic_canvas B img) = width img \<and> cheight (intrinsic_canvas B img) = height img"
    by (simp add: intrinsic_canvas_def rendered_dims)
  have "processImage B file t fmt cs =
      Some (Inr \<lparr>blob = b, finalSizeKB = fdiv (of_nat (blob_size b)) 1024\<rparr>, cs1)"
    if "st = (lo, hi, Some b)" for lo hi b
    using that assms(4) by (simp add: processImage_quality_search[OF assms(2,3,1)] make_result_def)
  with dims st cs1 show ?thesis by blast
qed

theorem binary_search_runs_ten_iterations_witness:
  "ImageJpeg \<noteq> ImagePng
   \<and> loadImage (demo_browser linear_size) ''photo'' = Inr demo_image
   \<and> getContext (demo_browser linear_size)
   \<and> quality_search (demo_browser linear_size) demo_image 100 ImageJpeg [] =
       (Inr (1 / 4, 257 / 1024, Some (replicate 102400 0)),
        DrawImage demo_image 15 100
          # map (ToBlob demo_canvas ImageJpeg)
              [1 / 2, 1 / 4, 3 / 8, 5 / 16, 9 / 32, 17 / 64, 33 / 128, 65 / 256, 129 / 512, 257 / 1024])
   \<and> processImage (demo_browser linear_size) ''photo'' 100 ImageJpeg [] =
       Some (Inr \<lparr>blob = replicate 102400 0, finalSizeKB = 100\<rparr>,
         DrawImage demo_image 15 100
           # map (ToBlob demo_canvas ImageJpeg)
               [1 / 2, 1 / 4, 3 / 8, 5 / 16, 9 / 32, 17 / 64, 33 / 128, 65 / 256, 129 / 512, 257 / 1024])"
proof -
  let ?B = "demo_browser linear_size"
  have h: "ImageJpeg \<noteq> ImagePng" "loadImage ?B ''photo'' = Inr demo_image" "getContext ?B"
    by simp_all
  note T = binary_search_runs_ten_iterations[OF h demo_linear_quality_search]
  then have "processImage ?B ''photo'' 100 ImageJpeg [] =
       Some (Inr \<lparr>blob = replicate 102400 0,
                  finalSizeKB = fdiv (of_nat (blob_size (replicate 102400 0 :: Blob))) 1024\<rparr>,
         DrawImage demo_image 15 100
           # map (ToBlob demo_canvas ImageJpeg)
               [1 / 2, 1 / 4, 3 / 8, 5 / 16, 9 / 32, 17 / 64, 33 / 128, 65 / 256, 129 / 512, 257 / 1024])"
    by blast
  moreover have "fdiv (of_nat (blob_size (replicate 102400 0 :: Blob))) 1024 = 100"
    using finalSizeKB_exact[of "replicate 102400 0"] by simp
  ultimately show ?thesis using h demo_linear_quality_search by simp
qed

text \<open>
  Claim C2. A JPEG or WebP invocation on a decodable image returns, and a blob it
  returns is either at most \<^verbatim>\<open>targetSizeKB * 1024\<close> bytes, or it is the blob of the one
  additional encoder call at the final \<open>minQuality\<close>, made when the loop ended without a
  best blob (no call of the loop fitted the budget), and is at most
  \<^verbatim>\<open>targetSizeBytes * 1.2\<close> bytes. When that additional call yields a larger blob the
  invocation fails with \<open>UnreachableBudget\<close>.
\<close>

theorem lossy_result_within_budget_or_tolerance:
  assumes "fmt \<noteq> ImagePng" "loadImage B file = Inr img" "getContext B"
  shows "\<exists>r cs'. processImage B file t fmt cs = Some (r, cs')
       \<and> (\<forall>res. r = Inr res \<longrightarrow>
            of_nat (blob_size (blob res)) \<le> fmul t 1024
          \<or> (\<exists>lo hi cs1.
                quality_search B img t fmt cs = (Inr (lo, hi, None), cs1)
              \<and> list_all (\<lambda>x. \<not> attempt_fits B (fmul t 1024) x) (drop (length cs) cs1)
              \<and> toBlob B (intrinsic_canvas B img) fmt lo = Some (blob res)
              \<and> cs' = cs1 @ [ToBlob (intrinsic_canvas B img) fmt lo]
              \<and> of_nat (blob_size (blob res)) \<le> fmul (fmul t 1024) lit_1_2))
       \<and> (\<forall>lo hi cs1 fb.
            quality_search B img t fmt cs = (Inr (lo, hi, None), cs1)
          \<and> toBlob B (intrinsic_canvas B img) fmt lo = Some fb
          \<and> fmul (fmul t 1024) lit_1_2 < of_nat (blob_size fb)
          \<longrightarrow> r = Inl (UnreachableBudget t))"
proof -
  obtain r0 qs where qs: "quality_search B img t fmt cs =
       (r0, cs @ DrawImage img (width img) (height img) # map (ToBlob (intrinsic_canvas B img) fmt) qs)"
    and post: "search_post B (intrinsic_canvas B img) fmt (fmul t 1024) 10 r0 qs"
    by (rule quality_search_post)
  note run = processImage_quality_search[OF assms(2,3,1), of t cs, unfolded qs]
  show ?thesis
  proof (cases r0)
    case (Inl e)
    with run qs show ?thesis by auto
  next
    case (Inr st)
    obtain lo hi best where st: "st = (lo, hi, best)" by (cases st)
    show ?thesis
    proof (cases best)
      case (Some b)
      with run post Inr st qs show ?thesis
        by (auto simp: search_post_def make_result_def)
    next
      case None
      with post Inr st have nofit:
        "\<forall>q\<in>set qs. \<forall>b. toBlob B (intrinsic_canvas B img) fmt q = Some b \<longrightarrow> fmul t 1024 < of_nat (blob_size b)"
        by (simp add: search_post_def)
      then have la: "list_all (\<lambda>x. \<not> attempt_fits B (fmul t 1024) x)
          (DrawImage img (width img) (height img) # map (ToBlob (intrinsic_canvas B img) fmt) qs)"
        by (simp only: no_fit_iff)
      from run None Inr st qs la show ?thesis
        by (auto simp: make_result_def split: option.splits if_splits)
    qed
  qed
qed

theorem lossy_result_within_budget_or_tolerance_witness:
  "ImageJpeg \<noteq> ImagePng
   \<and> loadImage (demo_browser (flat_size 110000)) ''photo'' = Inr demo_image
   \<and> getContext (demo_browser (flat_size 110000))
   \<and> (\<exists>cs'. processImage (demo_browser (flat_size 110000)) ''photo'' 100 ImageJpeg []
          = Some (Inr (make_result (replicate 110000 0)), cs')
        \<and> \<not> rat_of_nat (blob_size (replicate 110000 0 :: Blob)) \<le> fmul 100 1024
        \<and> rat_of_nat (blob_size (replicate 110000 0 :: Blob)) \<le> fmul (fmul 100 1024) lit_1_2)"
  using lossy_result_within_budget_or_tolerance[of ImageJpeg "demo_browser (flat_size 110000)"
      "''photo''" demo_image 100 "[]"]
    demo_flat_lossy_run[of 110000 ImageJpeg]
  by (simp add: tolerance_100)

text \<open>
  Claim C5, amended. A JPEG or WebP invocation makes at most eleven encoder calls: at
  most ten in the loop and one more for the fallback. It makes eleven only when none of
  the first ten fitted the budget. The counterexample is an invocation with eleven
  encoder calls.
\<close>

theorem lossy_encode_calls_at_most_eleven:
  assumes "fmt \<noteq> ImagePng"
  shows "\<exists>r new. processImage B file t fmt cs = Some (r, cs @ new) \<and> encode_calls new \<le> 11
           \<and> (encode_calls new = 11 \<longrightarrow>
                 list_all (\<lambda>x. \<not> attempt_fits B (fmul t 1024) x) (butlast new))"
proof (cases "loadImage B file")
  case (Inl e)
  then show ?thesis by (simp add: processImage_decode_failed)
next
  case (Inr img)
  show ?thesis
  proof (cases "getContext B")
    case False
    with Inr show ?thesis by (simp add: processImage_no_context)
  next
    case True
    let ?c = "intrinsic_canvas B img"
    obtain r0 qs where qs: "quality_search B img t fmt cs =
         (r0, cs @ DrawImage img (width img) (height img) # map (ToBlob ?c fmt) qs)"
      and post: "search_post B ?c fmt (fmul t 1024) 10 r0 qs"
      by (rule quality_search_post)
    note run = processImage_quality_search[OF Inr True assms(1), of t cs, unfolded qs]
    from post have len: "length qs \<le> 10" by (simp add: search_post_def)
    show ?thesis
    proof (cases r0)
      case (Inl e)
      with run len show ?thesis by auto
    next
      case r0: (Inr st)
      obtain lo hi best where st: "st = (lo, hi, best)" by (cases st)
      show ?thesis
      proof (cases best)
        case (Some b)
        with run r0 st len show ?thesis by auto
      next
        case None
        with post r0 st have nofit:
          "\<forall>q\<in>set qs. \<forall>b. toBlob B ?c fmt q = Some b \<longrightarrow> fmul t 1024 < of_nat (blob_size b)"
          by (simp add: search_post_def)
        then have la: "list_all (\<lambda>x. \<not> attempt_fits B (fmul t 1024) x)
            (DrawImage img (width img) (height img) # map (ToBlob ?c fmt) qs)"
          by (simp only: no_fit_iff)
        let ?new = "DrawImage img (width img) (height img) # map (ToBlob ?c fmt) qs @ [ToBlob ?c fmt lo]"
        from run None r0 st obtain r where r: "processImage B file t fmt cs = Some (r, cs @ ?new)"
          by (auto split: option.splits if_splits)
        have bl: "butlast ?new = DrawImage img (width img) (height img) # map (ToBlob ?c fmt) qs"
          by (simp add: butlast_append)
        have "encode_calls ?new \<le> 11" using len by simp
        with r la show ?thesis
          by (intro exI[of _ r] exI[of _ ?new]) (simp only: bl, simp)
      qed
    qed
  qed
qed

theorem lossy_encode_calls_at_most_eleven_witness:
  "ImageWebp \<noteq> ImagePng
   \<and> (\<exists>r new. processImage (demo_browser (flat_size 110000)) ''photo'' 100 ImageWebp [] = Some (r, [] @ new)
        \<and> encode_calls new \<le> 11
        \<and> (encode_calls new = 11 \<longrightarrow>
              list_all (\<lambda>x. \<not> attempt_fits (demo_browser (flat_size 110000)) (fmul 100 1024) x) (butlast new)))"
  using lossy_encode_calls_at_most_eleven[of ImageWebp "demo_browser (flat_size 110000)" "''photo''" 100 "[]"]
  by simp

theorem eleven_encode_calls_counterexample:
  "processImage (demo_browser (flat_size 200000)) ''photo'' 100 ImageJpeg [] =
     Some (Inl (UnreachableBudget 100),
       DrawImage demo_image 15 100
         # map (ToBlob demo_canvas ImageJpeg)
             [1 / 2, 1 / 4, 1 / 8, 1 / 16, 1 / 32, 1 / 64, 1 / 128, 1 / 256, 1 / 512, 1 / 1024, 0])
   \<and> encode_calls (DrawImage demo_image 15 100
         # map (ToBlob demo_canvas ImageJpeg)
             [1 / 2, 1 / 4, 1 / 8, 1 / 16, 1 / 32, 1 / 64, 1 / 128, 1 / 256, 1 / 512, 1 / 1024, 0]) = 11
   \<and> \<not> encode_calls (DrawImage demo_image 15 100
         # map (ToBlob demo_canvas ImageJpeg)
             [1 / 2, 1 / 4, 1 / 8, 1 / 16, 1 / 32, 1 / 64, 1 / 128, 1 / 256, 1 / 512, 1 / 1024, 0]) \<le> 10"
  using demo_flat_lossy_run[of 200000 ImageJpeg] by simp

text \<open>
  Claim C6. After any number \<open>k \<le> 10\<close> of iterations of the quality loop from
  \<open>minQuality = 0\<close>, \<open>maxQuality = 1\<close>, whether the run stopped at an encoder error or not,
  every quality passed to the encoder was strictly between 0 and 1; when the \<open>k\<close>
  iterations completed, \<open>0 \<le> minQuality < maxQuality \<le> 1\<close> holds and a best blob, if there
  is one, was encoded at a quality strictly between 0 and 1. The loop of
  \<^verbatim>\<open>processImage\<close> is ten such iterations.
\<close>

theorem quality_bounds_invariant:
  assumes "k \<le> 10" "iterations B c f t k (0, 1, None) cs = (r, cs')"
  shows "(\<exists>qs. cs' = cs @ map (ToBlob c f) qs \<and> (\<forall>q\<in>set qs. 0 < q \<and> q < 1))
       \<and> (\<forall>lo hi best. r = Inr (lo, hi, best) \<longrightarrow>
            0 \<le> lo \<and> lo < hi \<and> hi \<le> 1
          \<and> (\<forall>b. best = Some b \<longrightarrow> (\<exists>q. 0 < q \<and> q < 1 \<and> toBlob B c f q = Some b)))
       \<and> quality_loop B c f t 0 (0, 1, None) cs = iterations B c f t 10 (0, 1, None) cs"
proof -
  from iterations_post[OF assms(1), of B c f t cs] assms(2)
  obtain qs where cs': "cs' = cs @ map (ToBlob c f) qs" and post: "search_post B c f t k r qs"
    by auto
  from post have rng: "\<forall>q\<in>set qs. 0 < q \<and> q < 1" by (simp add: search_post_def)
  have "0 \<le> lo \<and> lo < hi \<and> hi \<le> 1
      \<and> (\<forall>b. best = Some b \<longrightarrow> (\<exists>q. 0 < q \<and> q < 1 \<and> toBlob B c f q = Some b))"
    if "r = Inr (lo, hi, best)" for lo hi best
  proof -
    from post that have dy: "dyadic k lo hi"
      and best: "case best of
             Some b \<Rightarrow> of_nat (blob_size b) \<le> t \<and> (\<exists>q\<in>set qs. toBlob B c f q = Some b)
           | None \<Rightarrow> lo = 0 \<and> (\<forall>q\<in>set qs. \<forall>b. toBlob B c f q = Some b \<longrightarrow> t < of_nat (blob_size b))"
      by (simp_all add: search_post_def)
    from best rng have "\<forall>b. best = Some b \<longrightarrow> (\<exists>q. 0 < q \<and> q < 1 \<and> toBlob B c f q = Some b)"
      by (auto split: option.splits)
    with dyadic_range[OF dy] show ?thesis by simp
  qed
  with cs' rng show ?thesis
    by (auto simp: quality_loop_iterations[of 0 10])
qed

theorem quality_bounds_invariant_witness:
  "(10::nat) \<le> 10
   \<and> iterations (demo_browser (flat_size 200000)) demo_canvas ImageJpeg 102400 10 (0, 1, None)
        [DrawImage demo_image 15 100] =
       (Inr (0, 1 / 1024, None),
        [DrawImage demo_image 15 100] @ map (ToBlob demo_canvas ImageJpeg)
           [1 / 2, 1 / 4, 1 / 8, 1 / 16, 1 / 32, 1 / 64, 1 / 128, 1 / 256, 1 / 512, 1 / 1024])
   \<and> (0::rat) \<le> 0 \<and> (0::rat) < 1 / 1024 \<and> (1 / 1024 :: rat) \<le> 1"
proof -
  let ?B = "demo_browser (flat_size 200000)"
  have tb: "toBlob ?B (intrinsic_canvas ?B demo_image) ImageJpeg q = Some (replicate 200000 0)" for q
    by (simp add: flat_size_def)
  have over: "fmul 100 1024 < of_nat (blob_size (replicate 200000 0 :: Blob))" by simp
  have run: "iterations ?B demo_canvas ImageJpeg 102400 10 (0, 1, None) [DrawImage demo_image 15 100] =
       (Inr (0, 1 / 1024, None),
        [DrawImage demo_image 15 100] @ map (ToBlob demo_canvas ImageJpeg)
           [1 / 2, 1 / 4, 1 / 8, 1 / 16, 1 / 32, 1 / 64, 1 / 128, 1 / 256, 1 / 512, 1 / 1024])"
    using flat_quality_search[OF tb over, of "[]"]
    by (simp add: quality_search_iterations) (simp add: demo_image_def)
  from quality_bounds_invariant[OF _ run] show ?thesis
    using run by simp
qed

text \<open>
  Claim C7. When \<^verbatim>\<open>loadImage\<close> rejects, because the file cannot be read or its bytes do
  not decode to an image, \<^verbatim>\<open>processImage\<close> fails with \<open>DecodeError\<close> and the list of
  calls is the one it started with: nothing was drawn and the encoder was not called.
\<close>

theorem decode_failure_makes_no_encode:
  assumes "loadImage B file = Inl e"
  shows "processImage B file t fmt cs = Some (Inl DecodeError, cs)"
  using assms loadImage_error[OF assms] by (simp add: processImage_decode_failed)

theorem decode_failure_makes_no_encode_witness:
  "loadImage (demo_browser (flat_size 200000)) ''noise'' = Inl DecodeError
   \<and> processImage (demo_browser (flat_size 200000)) ''noise'' 100 ImageJpeg [] = Some (Inl DecodeError, [])"
  using decode_failure_makes_no_encode[of "demo_browser (flat_size 200000)" "''noise''" DecodeError 100 ImageJpeg "[]"]
  by simp

text \<open>
  Claim C8. Let the browser have a state of its own, which each of its operations may
  read and change, and let it be a pure backend: how it answers does not depend on that
  state. Then for a given file, target size and format there is one outcome, an error or
  a blob with its \<open>finalSizeKB\<close>, that \<^verbatim>\<open>processImage\<close> returns from every state of the
  browser it is started in. So two runs, the second started in the state the first left
  behind or in any other, return the same bytes and the same reported size; and the
  outcome is the one \<^verbatim>\<open>processImage\<close> has over the answers alone, whatever calls were made
  before. For a backend that is not pure two runs can differ
  (\<open>impure_backend_runs_differ\<close>).
\<close>

theorem two_runs_over_a_pure_backend_agree:
  assumes "pure_backend W"
  shows "\<exists>r. (\<forall>w. \<exists>w'. processImage_w W file t fmt w = Some (r, w'))
           \<and> (\<forall>w cs. \<exists>cs'. processImage (answers W w) file t fmt cs = Some (r, cs'))"
proof -
  define B where "B = answers W undefined"
  from assms have P: "answers W w = B" for w
    unfolding B_def pure_backend_def by blast
  from processImage_returns[of B "file" t fmt]
  obtain r new where run: "processImage B file t fmt cs = Some (r, cs @ new)" for cs
    by blast
  have "\<exists>w'. processImage_w W file t fmt w = Some (r, w')" for w
    using processImage_w_pure[of W B "file" t fmt w "[]", OF P] run[of "[]"]
    by auto
  with run P show ?thesis by auto
qed

theorem two_runs_over_a_pure_backend_agree_witness:
  "pure_backend (demo_stateful (\<lambda>w. flat_size 50000))
   \<and> processImage_w (demo_stateful (\<lambda>w. flat_size 50000)) ''photo'' 100 ImagePng 0 =
       Some (Inr \<lparr>blob = replicate 50000 0, finalSizeKB = 3125 / 64\<rparr>, 8)
   \<and> processImage_w (demo_stateful (\<lambda>w. flat_size 50000)) ''photo'' 100 ImagePng 8 =
       Some (Inr \<lparr>blob = replicate 50000 0, finalSizeKB = 3125 / 64\<rparr>, 16)"
proof -
  let ?W = "demo_stateful (\<lambda>w. flat_size 50000)"
  let ?R = "Inr \<lparr>blob = replicate 50000 0, finalSizeKB = 3125 / 64\<rparr> :: error + Result"
  have pure: "pure_backend ?W"
    by (simp add: pure_backend_def demo_stateful_def)
  have first: "processImage_w ?W ''photo'' 100 ImagePng 0 = Some (?R, 8)"
    using demo_stateful_png_run[of "\<lambda>w. flat_size 50000" 0] by (simp add: flat_size_def)
  from two_runs_over_a_pure_backend_agree[OF pure, of "''photo''" 100 ImagePng]
  obtain r where r: "\<And>w. \<exists>w'. processImage_w ?W ''photo'' 100 ImagePng w = Some (r, w')"
    by blast
  from r[of 0] first have "r = ?R" by simp
  with r[of 8] obtain w' where second: "processImage_w ?W ''photo'' 100 ImagePng 8 = Some (?R, w')"
    by blast
  moreover have "snd (the (processImage_w ?W ''photo'' 100 ImagePng 8)) = 16"
    using demo_stateful_png_run[of "\<lambda>w. flat_size 50000" 8] by (simp add: flat_size_def)
  ultimately have "processImage_w ?W ''photo'' 100 ImagePng 8 = Some (?R, 16)" by simp
  with pure first show ?thesis by simp
qed

text \<open>
  Claim C10. Let \<open>targetSizeKB\<close> be a binary64 number. For JPEG and WebP, when the loop
  completes and no blob it encoded is within \<open>targetSizeKB * 1024\<close> bytes, \<open>minQuality\<close> is
  still 0 and there is no best blob, so the next and last encoder call of
  \<^verbatim>\<open>processImage\<close> is at quality 0. For every format, the \<open>finalSizeKB\<close> of a returned
  result is the size of the returned blob divided by 1024 as the code computes it, which
  is the exact quotient for a blob of at most \<open>2 ^ 53\<close> bytes.
\<close>

theorem fallback_at_quality_zero_and_reported_size:
  assumes "fl t = t"
  shows "(fmt \<noteq> ImagePng \<and> loadImage B file = Inr img \<and> getContext B \<longrightarrow>
           (\<exists>r qs. quality_search B img t fmt cs =
                (r, cs @ DrawImage img (width img) (height img)
                       # map (ToBlob (intrinsic_canvas B img) fmt) qs)
              \<and> ((\<exists>st. r = Inr st)
                  \<and> (\<forall>q\<in>set qs. \<forall>b. toBlob B (intrinsic_canvas B img) fmt q = Some b
                        \<longrightarrow> t * 1024 < of_nat (blob_size b))
                 \<longrightarrow> (\<exists>hi. r = Inr (0, hi, None))
                   \<and> (\<exists>r'. processImage B file t fmt cs =
                         Some (r', cs @ DrawImage img (width img) (height img)
                                  # map (ToBlob (intrinsic_canvas B img) fmt) qs
                                  @ [ToBlob (intrinsic_canvas B img) fmt 0])))))
       \<and> (\<forall>res cs'. processImage B file t fmt cs = Some (Inr res, cs') \<longrightarrow>
             finalSizeKB res = fdiv (of_nat (blob_size (blob res))) 1024
           \<and> (blob_size (blob res) \<le> 2 ^ 53 \<longrightarrow>
                finalSizeKB res = of_nat (blob_size (blob res)) / 1024))"
proof (intro conjI impI allI)
  assume A: "fmt \<noteq> ImagePng \<and> loadImage B file = Inr img \<and> getContext B"
  let ?c = "intrinsic_canvas B img"
  let ?cs0 = "cs @ DrawImage img (width img) (height img) # []"
  obtain r qs where qs: "quality_search B img t fmt cs =
       (r, cs @ DrawImage img (width img) (height img) # map (ToBlob ?c fmt) qs)"
    and post: "search_post B ?c fmt (fmul t 1024) 10 r qs"
    by (rule quality_search_post)
  have budget: "fmul t 1024 = t * 1024" by (rule fmul_1024[OF assms])
  have "(\<exists>hi. r = Inr (0, hi, None))
       \<and> (\<exists>r'. processImage B file t fmt cs =
             Some (r', cs @ DrawImage img (width img) (height img) # map (ToBlob ?c fmt) qs
                      @ [ToBlob ?c fmt 0]))"
    if st: "\<exists>st. r = Inr st"
      and nofit: "\<forall>q\<in>set qs. \<forall>b. toBlob B ?c fmt q = Some b \<longrightarrow> t * 1024 < of_nat (blob_size b)"
  proof -
    from st obtain lo hi best where r: "r = Inr (lo, hi, best)" by auto
    have none: "best = None"
    proof (cases best)
      case (Some b)
      with post r obtain q where "q \<in> set qs" "toBlob B ?c fmt q = Some b"
        "of_nat (blob_size b) \<le> fmul t 1024"
        by (auto simp: search_post_def)
      with nofit budget show ?thesis by fastforce
    qed simp
    with post r have lo: "lo = 0" by (simp add: search_post_def)
    from A have run: "processImage B file t fmt cs =
        (case toBlob B ?c fmt 0 of
           None \<Rightarrow> Some (Inl EncodeError,
               (cs @ DrawImage img (width img) (height img) # map (ToBlob ?c fmt) qs) @ [ToBlob ?c fmt 0])
         | Some fb \<Rightarrow>
             if fmul (fmul t 1024) lit_1_2 < of_nat (blob_size fb)
             then Some (Inl (UnreachableBudget t),
               (cs @ DrawImage img (width img) (height img) # map (ToBlob ?c fmt) qs) @ [ToBlob ?c fmt 0])
             else Some (Inr (make_result fb),
               (cs @ DrawImage img (width img) (height img) # map (ToBlob ?c fmt) qs) @ [ToBlob ?c fmt 0]))"
      by (simp add: processImage_quality_search qs r none lo)
    have "\<exists>r'. processImage B file t fmt cs =
             Some (r', cs @ DrawImage img (width img) (height img) # map (ToBlob ?c fmt) qs
                      @ [ToBlob ?c fmt 0])"
      unfolding run by (simp split: option.splits)
    with r none lo show ?thesis by simp
  qed
  with qs show "\<exists>r qs. quality_search B img t fmt cs =
                (r, cs @ DrawImage img (width img) (height img) # map (ToBlob ?c fmt) qs)
              \<and> ((\<exists>st. r = Inr st)
                  \<and> (\<forall>q\<in>set qs. \<forall>b. toBlob B ?c fmt q = Some b \<longrightarrow> t * 1024 < of_nat (blob_size b))
                 \<longrightarrow> (\<exists>hi. r = Inr (0, hi, None))
                   \<and> (\<exists>r'. processImage B file t fmt cs =
                         Some (r', cs @ DrawImage img (width img) (height img)
                                  # map (ToBlob ?c fmt) qs @ [ToBlob ?c fmt 0])))"
    by blast
next
  fix res cs'
  assume "processImage B file t fmt cs = Some (Inr res, cs')"
  from processImage_result[OF this] obtain b where b: "res = make_result b" ..
  then show "finalSizeKB res = fdiv (of_nat (blob_size (blob res))) 1024"
    by (simp add: make_result_def)
  assume "blob_size (blob res) \<le> 2 ^ 53"
  with b show "finalSizeKB res = of_nat (blob_size (blob res)) / 1024"
    using finalSizeKB_exact[of b] by (simp add: make_result_def)
qed

theorem fallback_at_quality_zero_and_reported_size_witness:
  "fl 100 = 100
   \<and> processImage (demo_browser (flat_size 110000)) ''photo'' 100 ImageJpeg [] =
       Some (Inr (make_result (replicate 110000 0)),
         DrawImage demo_image 15 100
           # map (ToBlob demo_canvas ImageJpeg)
               [1 / 2, 1 / 4, 1 / 8, 1 / 16, 1 / 32, 1 / 64, 1 / 128, 1 / 256, 1 / 512, 1 / 1024, 0])
   \<and> finalSizeKB (make_result (replicate 110000 0)) = 110000 / 1024"
proof -
  let ?B = "demo_browser (flat_size 110000)"
  note run = demo_flat_lossy_run[of 110000 ImageJpeg, simplified]
  from fallback_at_quality_zero_and_reported_size[OF fl_numeral_100, of ImageJpeg ?B "''photo''"
      demo_image "[]"]
  have "\<forall>res cs'. processImage ?B ''photo'' 100 ImageJpeg [] = Some (Inr res, cs') \<longrightarrow>
      (blob_size (blob res) \<le> 2 ^ 53 \<longrightarrow> finalSizeKB res = of_nat (blob_size (blob res)) / 1024)"
    by blast
  with run have "blob_size (blob (make_result (replicate 110000 0))) \<le> 2 ^ 53 \<longrightarrow>
      finalSizeKB (make_result (replicate 110000 0)) =
        of_nat (blob_size (blob (make_result (replicate 110000 0)))) / 1024"
    by blast
  then have "finalSizeKB (make_result (replicate 110000 0)) = 110000 / 1024"
    by (simp add: make_result_def)
  with run show ?thesis by simp
qed

text \<open>
  Claim C3. A PNG invocation always returns, and never with \<open>UnreachableBudget\<close>. On a
  decodable image it first encodes the canvas of the image's own size at
  \<open>scale = 1.0\<close>; then, for some \<open>n \<le> 18\<close>, it runs \<open>n\<close> iterations, each entered with a blob
  larger than \<^verbatim>\<open>targetSizeKB * 1024\<close> bytes and \<open>scale > 0.1\<close>, the \<open>j\<close>-th subtracting
  \<open>0.05\<close> from \<open>scale\<close>, drawing the image on a canvas of \<^verbatim>\<open>Math.round(img.width * scale)\<close>
  by \<^verbatim>\<open>Math.round(img.height * scale)\<close> and encoding it. It fails only when an encoder
  call fails; otherwise the \<open>blob\<close> of its result is the last blob encoded and the
  \<open>finalSizeKB\<close> that blob's size divided by 1024; the blob either fits the budget or was
  encoded at a \<open>scale\<close> no longer above \<open>0.1\<close>, whatever its size.
\<close>

theorem lossless_search_shrinks_until_fit_or_floor:
  "\<exists>r new. processImage B file t ImagePng cs = Some (r, cs @ new)
     \<and> (\<forall>x. r \<noteq> Inl (UnreachableBudget x))
     \<and> (\<forall>img. loadImage B file = Inr img \<and> getContext B \<longrightarrow>
          (\<exists>n\<le>18.
             new = [DrawImage img (width img) (height img), ToBlob (shrunk_canvas B img 0) ImagePng 1]
                     @ shrink_calls B img 0 n
           \<and> (\<forall>j<n. lit_0_1 < scale_after j
                  \<and> (\<exists>bj. toBlob B (shrunk_canvas B img j) ImagePng 1 = Some bj
                         \<and> fmul t 1024 < of_nat (blob_size bj)))
           \<and> (case toBlob B (shrunk_canvas B img n) ImagePng 1 of
                 None \<Rightarrow> r = Inl EncodeError
               | Some bn \<Rightarrow>
                   r = Inr \<lparr>blob = bn, finalSizeKB = fdiv (of_nat (blob_size bn)) 1024\<rparr>
                   \<and> (of_nat (blob_size bn) \<le> fmul t 1024 \<or> \<not> lit_0_1 < scale_after n))))"
proof (cases "loadImage B file")
  case (Inl e)
  with loadImage_error[OF Inl] show ?thesis by (simp add: processImage_decode_failed)
next
  case (Inr img)
  show ?thesis
  proof (cases "getContext B")
    case False
    with Inr show ?thesis by (simp add: processImage_no_context)
  next
    case True
    obtain r n where n: "n \<le> 18"
      and run: "processImage B file t ImagePng cs =
         Some (r, cs @ [DrawImage img (width img) (height img), ToBlob (shrunk_canvas B img 0) ImagePng 1]
                     @ shrink_calls B img 0 n)"
      and over: "\<forall>j<n. \<exists>bj. toBlob B (shrunk_canvas B img j) ImagePng 1 = Some bj
              \<and> fmul t 1024 < of_nat (blob_size bj)"
      and final: "case toBlob B (shrunk_canvas B img n) ImagePng 1 of
         None \<Rightarrow> r = Inl EncodeError
       | Some bn \<Rightarrow> r = Inr (make_result bn) \<and> (of_nat (blob_size bn) \<le> fmul t 1024 \<or> n = 18)"
      by (rule png_run[OF Inr True])
    from final have nobudget: "\<forall>x. r \<noteq> Inl (UnreachableBudget x)"
      by (auto split: option.splits)
    from n have above: "\<forall>j<n. lit_0_1 < scale_after j"
      by (auto intro: scale_above_floor)
    from final scale_at_floor have final':
      "case toBlob B (shrunk_canvas B img n) ImagePng 1 of
         None \<Rightarrow> r = Inl EncodeError
       | Some bn \<Rightarrow> r = Inr \<lparr>blob = bn, finalSizeKB = fdiv (of_nat (blob_size bn)) 1024\<rparr>
           \<and> (of_nat (blob_size bn) \<le> fmul t 1024 \<or> \<not> lit_0_1 < scale_after n)"
      by (auto simp: make_result_def split: option.splits)
    show ?thesis
      apply (rule exI[of _ r])
      apply (rule exI[of _ "[DrawImage img (width img) (height img), ToBlob (shrunk_canvas B img 0) ImagePng 1]
                     @ shrink_calls B img 0 n"])
      apply (intro conjI)
        apply (rule run)
       apply (rule nobudget)
      apply (intro allI impI)
      apply (rule exI[of _ n])
      using Inr n over above final'
      apply simp
      done
  qed
qed

theorem lossless_search_shrinks_until_fit_or_floor_witness:
  "loadImage (demo_browser (flat_size 200000)) ''photo'' = Inr demo_image
   \<and> getContext (demo_browser (flat_size 200000))
   \<and> processImage (demo_browser (flat_size 200000)) ''photo'' 100 ImagePng [] =
       Some (Inr \<lparr>blob = replicate 200000 0, finalSizeKB = 3125 / 16\<rparr>,
         [DrawImage demo_image 15 100, ToBlob demo_canvas ImagePng 1]
           @ shrink_calls (demo_browser (flat_size 200000)) demo_image 0 18)
   \<and> fmul 100 1024 < rat_of_nat (blob_size (replicate 200000 0 :: Blob))
   \<and> \<not> lit_0_1 < scale_after 18"
proof -
  let ?B = "demo_browser (flat_size 200000)"
  from lossless_search_shrinks_until_fit_or_floor[of ?B "''photo''" 100 "[]"]
  obtain r new n where run: "processImage ?B ''photo'' 100 ImagePng [] = Some (r, new)"
    and new: "new = [DrawImage demo_image (width demo_image) (height demo_image),
                     ToBlob (shrunk_canvas ?B demo_image 0) ImagePng 1]
                    @ shrink_calls ?B demo_image 0 n"
    and r: "r = Inr \<lparr>blob = replicate 200000 0,
                       finalSizeKB = fdiv (of_nat (blob_size (replicate 200000 0 :: Blob))) 1024\<rparr>"
    by (auto simp: flat_size_def)
  have kb: "fdiv (of_nat (blob_size (replicate 200000 0 :: Blob))) 1024 = 3125 / 16"
    using finalSizeKB_exact[of "replicate 200000 0"] by simp
  from run demo_flat_png_run(1)[of 200000]
  have "new = [DrawImage demo_image 15 100, ToBlob demo_canvas ImagePng 1]
                @ shrink_calls ?B demo_image 0 18"
    by simp
  with run r kb scale_at_floor show ?thesis by simp
qed

text \<open>
  Claim C4, amended. The blob a PNG invocation returns was encoded from a canvas whose
  width and height are the image's own (\<open>k = 0\<close>) or
  \<^verbatim>\<open>Math.round(img.width * scale)\<close> and \<^verbatim>\<open>Math.round(img.height * scale)\<close> for the
  binary64 value \<open>scale\<close> reached after \<open>k \<le> 18\<close> subtractions of \<open>0.05\<close> from \<open>1.0\<close>, the
  product being rounded to binary64 as well. The scale is never below the value after 18
  subtractions, which is \<open>7205759403792771 / 2 ^ 56\<close>, about \<open>0.09999999999999969\<close>: below
  \<open>0.1\<close> and above \<open>0.05\<close>. The counterexample has two runs on a 15 by 100 image: one ends
  with \<open>scale\<close> below \<open>0.1\<close> on a 1 by 10 canvas, the other returns a 13 by 90 canvas; neither
  pair of dimensions is one that the exact scales \<open>1.0, 0.95, \<dots>, 0.1\<close> give.
\<close>

theorem lossless_dimensions_follow_rounded_scales:
  assumes "loadImage B file = Inr img" "getContext B"
  shows "\<exists>r new. processImage B file t ImagePng cs = Some (r, cs @ new)
     \<and> (\<forall>res. r = Inr res \<longrightarrow>
          (\<exists>k\<le>18. new \<noteq> [] \<and> last new = ToBlob (shrunk_canvas B img k) ImagePng 1
             \<and> toBlob B (shrunk_canvas B img k) ImagePng 1 = Some (blob res)
             \<and> cwidth (shrunk_canvas B img k)
                 = (if k = 0 then width img else scaled_dim (width img) (scale_after k))
             \<and> cheight (shrunk_canvas B img k)
                 = (if k = 0 then height img else scaled_dim (height img) (scale_after k))
             \<and> scale_after 18 \<le> scale_after k))
     \<and> scale_after 18 = 7205759403792771 / 72057594037927936
     \<and> scale_after 18 < lit_0_1 \<and> 5 / 100 < scale_after 18"
proof -
  obtain r n where n: "n \<le> 18"
    and run: "processImage B file t ImagePng cs =
       Some (r, cs @ [DrawImage img (width img) (height img), ToBlob (shrunk_canvas B img 0) ImagePng 1]
                   @ shrink_calls B img 0 n)"
    and final: "case toBlob B (shrunk_canvas B img n) ImagePng 1 of
       None \<Rightarrow> r = Inl EncodeError
     | Some bn \<Rightarrow> r = Inr (make_result bn) \<and> (of_nat (blob_size bn) \<le> fmul t 1024 \<or> n = 18)"
    by (rule png_run[OF assms])
  let ?new = "[DrawImage img (width img) (height img), ToBlob (shrunk_canvas B img 0) ImagePng 1]
                   @ shrink_calls B img 0 n"
  have last: "last ?new = ToBlob (shrunk_canvas B img n) ImagePng 1"
  proof (cases "n = 0")
    case True
    then show ?thesis by simp
  next
    case False
    then have "0 < n" by simp
    from last_shrink_calls[OF this, of B img] shrink_calls_neq_Nil[OF this, of B img]
    show ?thesis by simp
  qed
  have res: "\<exists>k\<le>18. ?new \<noteq> [] \<and> last ?new = ToBlob (shrunk_canvas B img k) ImagePng 1
             \<and> toBlob B (shrunk_canvas B img k) ImagePng 1 = Some (blob res)
             \<and> cwidth (shrunk_canvas B img k)
                 = (if k = 0 then width img else scaled_dim (width img) (scale_after k))
             \<and> cheight (shrunk_canvas B img k)
                 = (if k = 0 then height img else scaled_dim (height img) (scale_after k))
             \<and> scale_after 18 \<le> scale_after k"
    if "r = Inr res" for res
  proof -
    from final that have "toBlob B (shrunk_canvas B img n) ImagePng 1 = Some (blob res)"
      by (auto simp: make_result_def split: option.splits)
    with n last scale_floor_least[OF n] show ?thesis
      by (intro exI[of _ n]) (simp add: shrunk_canvas_dims)
  qed
  have floor: "scale_after 18 = 7205759403792771 / 72057594037927936
     \<and> scale_after 18 < lit_0_1 \<and> 5 / 100 < scale_after 18"
    by (simp add: scale_after_18 lit_0_1_val)
  from run res floor show ?thesis by blast
qed

theorem lossless_dimensions_follow_rounded_scales_witness:
  "loadImage (demo_browser area_size) ''photo'' = Inr demo_image
   \<and> getContext (demo_browser area_size)
   \<and> processImage (demo_browser area_size) ''photo'' 100 ImagePng [] =
       Some (Inr (make_result (replicate 99450 0)),
         [DrawImage demo_image 15 100, ToBlob demo_canvas ImagePng 1,
          DrawImage demo_image 14 95, ToBlob \<lparr>cwidth = 14, cheight = 95, bitmap = 7\<rparr> ImagePng 1,
          DrawImage demo_image 13 90, ToBlob \<lparr>cwidth = 13, cheight = 90, bitmap = 7\<rparr> ImagePng 1])
   \<and> cwidth (shrunk_canvas (demo_browser area_size) demo_image 2) = 13
   \<and> cheight (shrunk_canvas (demo_browser area_size) demo_image 2) = 90
   \<and> scale_after 18 \<le> scale_after 2"
  using lossless_dimensions_follow_rounded_scales[of "demo_browser area_size" "''photo''" demo_image 100 "[]"]
    demo_area_png_run scale_floor_least[of 2]
  by (simp add: demo_shrunk_canvas_2)

theorem lossless_scale_below_floor_counterexample:
  "map_option fst (processImage (demo_browser (flat_size 200000)) ''photo'' 100 ImagePng []) =
     Some (Inr (make_result (replicate 200000 0)))
   \<and> map_option fst
       (shrink_loop (demo_browser (flat_size 200000)) demo_image (fmul 100 1024) (replicate 200000 0) 1
          demo_canvas [DrawImage demo_image 15 100, ToBlob demo_canvas ImagePng 1]) =
     Some (Inr (replicate 200000 0, 7205759403792771 / 72057594037927936,
                \<lparr>cwidth = 1, cheight = 10, bitmap = 7\<rparr>))
   \<and> (7205759403792771 / 72057594037927936 :: rat) < 1 / 10
   \<and> (7205759403792771 / 72057594037927936 :: rat) < lit_0_1
   \<and> (1, 10) \<notin> set (spec_dims 15 100)
   \<and> processImage (demo_browser area_size) ''photo'' 100 ImagePng [] =
       Some (Inr (make_result (replicate 99450 0)),
         [DrawImage demo_image 15 100, ToBlob demo_canvas ImagePng 1,
          DrawImage demo_image 14 95, ToBlob \<lparr>cwidth = 14, cheight = 95, bitmap = 7\<rparr> ImagePng 1,
          DrawImage demo_image 13 90, ToBlob \<lparr>cwidth = 13, cheight = 90, bitmap = 7\<rparr> ImagePng 1])
   \<and> (13, 90) \<notin> set (spec_dims 15 100)"
  using demo_flat_png_run[of 200000] demo_area_png_run
  by (simp add: scale_after_18 demo_shrunk_canvas_18 spec_dims_15_100 lit_0_1_val)

text \<open>
  Claim C9. In every invocation on a decodable image, for either search, each
  \<^verbatim>\<open>drawImage\<close> call draws the decoded image itself, and each canvas given to the encoder
  is that image drawn on a cleared bitmap of the canvas's size: no bitmap is computed
  from the bitmap of an earlier iteration. The decoded image is passed to the browser as
  a value, so no call changes it.
\<close>

theorem every_drawing_is_from_the_decoded_image:
  assumes "loadImage B file = Inr img"
  shows "\<exists>r new. processImage B file t fmt cs = Some (r, cs @ new)
     \<and> (\<forall>x\<in>set new. case x of
            DrawImage src w h \<Rightarrow> src = img
          | ToBlob c f q \<Rightarrow> c = rendered B img (cwidth c) (cheight c))"
proof (cases "getContext B")
  case False
  with assms show ?thesis by (simp add: processImage_no_context)
next
  case True
  have ic: "intrinsic_canvas B img = rendered B img (cwidth (intrinsic_canvas B img)) (cheight (intrinsic_canvas B img))"
    by (simp add: intrinsic_canvas_def rendered_dims)
  show ?thesis
  proof (cases "fmt = ImagePng")
    case png: True
    obtain r n where
      run: "processImage B file t ImagePng cs =
         Some (r, cs @ [DrawImage img (width img) (height img), ToBlob (shrunk_canvas B img 0) ImagePng 1]
                     @ shrink_calls B img 0 n)"
      by (rule png_run[OF assms True])
    have "case x of DrawImage src w h \<Rightarrow> src = img
          | ToBlob c f q \<Rightarrow> c = rendered B img (cwidth c) (cheight c)"
      if "x \<in> set ([DrawImage img (width img) (height img), ToBlob (shrunk_canvas B img 0) ImagePng 1]
                     @ shrink_calls B img 0 n)" for x
      using that set_shrink_calls[of x B img 0 n] shrunk_canvas_rendered[of B img]
      by auto
    with run png show ?thesis by blast
  next
    case False
    let ?c = "intrinsic_canvas B img"
    obtain r0 qs where qs: "quality_search B img t fmt cs =
         (r0, cs @ DrawImage img (width img) (height img) # map (ToBlob ?c fmt) qs)"
      by (rule quality_search_post)
    note run = processImage_quality_search[OF assms True False, of t cs, unfolded qs]
    have "\<exists>r lo. processImage B file t fmt cs =
         Some (r, cs @ DrawImage img (width img) (height img) # map (ToBlob ?c fmt) qs)
       \<or> processImage B file t fmt cs =
         Some (r, cs @ DrawImage img (width img) (height img) # map (ToBlob ?c fmt) qs @ [ToBlob ?c fmt lo])"
      unfolding run by (auto split: sum.splits option.splits prod.splits)
    then obtain r lo where
      "processImage B file t fmt cs =
         Some (r, cs @ DrawImage img (width img) (height img) # map (ToBlob ?c fmt) qs)
       \<or> processImage B file t fmt cs =
         Some (r, cs @ DrawImage img (width img) (height img) # map (ToBlob ?c fmt) qs @ [ToBlob ?c fmt lo])"
      by blast
    then show ?thesis
    proof
      assume p: "processImage B file t fmt cs =
         Some (r, cs @ DrawImage img (width img) (height img) # map (ToBlob ?c fmt) qs)"
      show ?thesis
        by (rule exI[of _ r], rule exI[of _ "DrawImage img (width img) (height img) # map (ToBlob ?c fmt) qs"])
           (use p ic in auto)
    next
      assume p: "processImage B file t fmt cs =
         Some (r, cs @ DrawImage img (width img) (height img) # map (ToBlob ?c fmt) qs @ [ToBlob ?c fmt lo])"
      show ?thesis
        by (rule exI[of _ r], rule exI[of _ "DrawImage img (width img) (height img) # map (ToBlob ?c fmt) qs @ [ToBlob ?c fmt lo]"])
           (use p ic in auto)
    qed
  qed
qed

theorem every_drawing_is_from_the_decoded_image_witness:
  "loadImage (demo_browser area_size) ''photo'' = Inr demo_image
   \<and> (\<exists>r new. processImage (demo_browser area_size) ''photo'' 100 ImagePng [] = Some (r, [] @ new)
        \<and> (\<forall>x\<in>set new. case x of
               DrawImage src w h \<Rightarrow> src = demo_image
             | ToBlob c f q \<Rightarrow> c = rendered (demo_browser area_size) demo_image (cwidth c) (cheight c)))"
  using every_drawing_is_from_the_decoded_image[of "demo_browser area_size" "''photo''" demo_image
      100 ImagePng "[]"]
  by simp

end
